theory Spec2Isabelle
  imports Main "HOL-Library.Word"
begin

section \<open>The RamFuzz runtime (ramfuzz-rt.hpp): logs and numeric values\<close>

text \<open>
  A log is a sequence of bytes.  A numeric type \<open>T\<close> of the C++ code (the template
  parameter of \<open>gen::between\<close>, \<open>gen::input\<close> and \<open>gen::output\<close>) is described
  by what the templates use of it: \<open>typetag(T)\<close> (declared in the header, defined
  elsewhere, so a field here), \<open>sizeof(T)\<close> and whether \<open>T\<close> is signed.  A value of
  \<open>T\<close> is an \<open>int\<close>; its object representation, which
  \<open>reinterpret_cast<char *>(&val)\<close> exposes, is the little-endian two's complement
  encoding on \<open>sizeof(T)\<close> bytes.  The type \<open>size_t\<close> of a value id has 8 bytes.
\<close>

type_synonym byte = "8 word"

record numty =
  typetag :: byte
  sizeof :: nat
  is_signed :: bool

fun le_bytes :: "nat \<Rightarrow> nat \<Rightarrow> byte list" where
  "le_bytes 0 x = []"
| "le_bytes (Suc n) x = word_of_nat (x mod 256) # le_bytes n (x div 256)"

fun le_nat :: "byte list \<Rightarrow> nat" where
  "le_nat [] = 0"
| "le_nat (b # bs) = unat b + 256 * le_nat bs"

definition object_bytes :: "numty \<Rightarrow> int \<Rightarrow> byte list" where
  "object_bytes T v = le_bytes (sizeof T) (nat (v mod 2 ^ (8 * sizeof T)))"

definition object_value :: "numty \<Rightarrow> byte list \<Rightarrow> int" where
  "object_value T bs =
     (let u = int (le_nat bs)
      in if is_signed T \<and> 2 ^ (8 * sizeof T - 1) \<le> u then u - 2 ^ (8 * sizeof T) else u)"

definition numeric_min :: "numty \<Rightarrow> int" where
  "numeric_min T = (if is_signed T then - (2 ^ (8 * sizeof T - 1)) else 0)"

definition numeric_max :: "numty \<Rightarrow> int" where
  "numeric_max T =
     (if is_signed T then 2 ^ (8 * sizeof T - 1) - 1 else 2 ^ (8 * sizeof T) - 1)"

text \<open>\<open>v\<close> is a value of the type \<open>T\<close> (and \<open>T\<close> has at least one byte).\<close>

definition in_range :: "numty \<Rightarrow> int \<Rightarrow> bool" where
  "in_range T v \<longleftrightarrow> 0 < sizeof T \<and> numeric_min T \<le> v \<and> v \<le> numeric_max T"

definition sizeof_size_t :: nat where
  "sizeof_size_t = 8"

datatype runmode = generate | replay

text \<open>
  What stops a run: the \<open>assert\<close> of \<open>gen::input\<close>; a value that the code uses
  although the input log ended before it was read (\<open>ilog.read\<close> then leaves the
  uninitialised \<open>val\<close> as it is); an index outside an array; a null or dangling
  pointer that is dereferenced; the exceptions of \<open>operator new[]\<close> and of the
  constructor of \<open>std::basic_string\<close>; and whatever the code under test throws.
\<close>

datatype error =
    assertion_failure
  | indeterminate_value
  | out_of_bounds
  | invalid_pointer
  | bad_array_new_length
  | length_error
  | user_exception

text \<open>
  The types \<open>T\<close> of \<open>gen::make\<close>, by the overload of \<open>makenew\<close> that
  \<open>std::enable_if\<close> selects: arithmetic and enumeration types (here the integral
  ones), classes and unions (by name), \<open>void\<close>, pointers, function types.
  Qualifiers (\<open>const\<close>, \<open>volatile\<close>) are not modelled.  An address is an index
  into the free store.
\<close>

datatype ctype = Arith numty | Class string | Void | Ptr ctype | Func

type_synonym addr = nat

text \<open>
  The members of \<open>class gen\<close>.  The random engine \<open>rgen\<close> is the sequence of raw
  numbers it will deliver; \<open>storage\<close> maps a type to the addresses stored for it
  (\<open>operator[]\<close> of the map makes an empty vector for a type not seen before).
\<close>

record gen =
  runmode :: runmode
  rgen :: "nat \<Rightarrow> nat"
  olog :: "byte list"
  ilog :: "byte list"
  storage :: "ctype \<Rightarrow> addr list"

text \<open>
  \<open>std::istream::get\<close>: the next byte; at the end of the stream it returns
  \<open>EOF\<close>, which \<open>const char ty = ilog.get()\<close> converts to the byte \<open>0xFF\<close>.
\<close>

definition ilog_get :: "byte list \<Rightarrow> byte \<times> byte list" where
  "ilog_get s = (case s of [] \<Rightarrow> (0xFF, []) | b # r \<Rightarrow> (b, r))"

text \<open>
  \<open>std::istream::read\<close> of \<open>n\<close> bytes: \<open>None\<close> when fewer than \<open>n\<close> bytes are
  left; the stream is then exhausted and the destination is not (wholly) written.
\<close>

definition ilog_read :: "nat \<Rightarrow> byte list \<Rightarrow> byte list option \<times> byte list" where
  "ilog_read n s = (if n \<le> length s then (Some (take n s), drop n s) else (None, []))"

text \<open>\<open>gen::output\<close>: the tag, the bytes of the value, the bytes of the id.\<close>

definition gen_output :: "numty \<Rightarrow> int \<Rightarrow> nat \<Rightarrow> 'a gen_scheme \<Rightarrow> 'a gen_scheme" where
  "gen_output T val valueid g =
     g\<lparr>olog := olog g @ [typetag T] @ object_bytes T val @ le_bytes sizeof_size_t valueid\<rparr>"

text \<open>
  \<open>gen::input\<close>: reads the tag and asserts that it is the tag of \<open>T\<close>, reads the
  value, reads the id into a local variable that is never used.
\<close>

definition gen_input :: "numty \<Rightarrow> 'a gen_scheme \<Rightarrow> error + (int \<times> 'a gen_scheme)" where
  "gen_input T g =
     (case ilog_get (ilog g) of (ty, s1) \<Rightarrow>
        if ty \<noteq> typetag T then Inl assertion_failure
        else (case ilog_read (sizeof T) s1 of
                (None, s2) \<Rightarrow> Inl indeterminate_value
              | (Some bs, s2) \<Rightarrow>
                  Inr (object_value T bs, g\<lparr>ilog := snd (ilog_read sizeof_size_t s2)\<rparr>)))"

text \<open>
  Modelled from the spec: \<open>gen::uniform_random\<close> is declared in the header
  ("Returns a random value distributed uniformly between lo and hi, inclusive") and
  defined outside it.  The spec: "draws uniformly from \<open>[lo, hi]\<close> inclusive using a
  seeded pseudorandom source".  Here the next raw number of the source selects the value
  of the interval; the spec says nothing about \<open>hi < lo\<close>, where \<open>lo\<close> is returned.
\<close>

definition uniform_random :: "int \<Rightarrow> int \<Rightarrow> 'a gen_scheme \<Rightarrow> int \<times> 'a gen_scheme" where
  "uniform_random lo hi g =
     (if lo \<le> hi then lo + int (rgen g 0 mod nat (hi - lo + 1)) else lo,
      g\<lparr>rgen := \<lambda>n. rgen g (Suc n)\<rparr>)"

text \<open>\<open>gen::between\<close>.\<close>

definition between ::
  "numty \<Rightarrow> int \<Rightarrow> int \<Rightarrow> nat \<Rightarrow> 'a gen_scheme \<Rightarrow> error + (int \<times> 'a gen_scheme)" where
  "between T lo hi valueid g =
     (case (if runmode g = generate then Inr (uniform_random lo hi g) else gen_input T g) of
        Inl e \<Rightarrow> Inl e
      | Inr (val, g1) \<Rightarrow> Inr (val, gen_output T val valueid g1))"

text \<open>
  A sequence of calls of \<open>between\<close>, each with its type, bounds and id, made one after
  the other on the same engine; the values returned, in order.
\<close>

type_synonym call = "numty \<times> int \<times> int \<times> nat"

fun betweens :: "call list \<Rightarrow> 'a gen_scheme \<Rightarrow> error + (int list \<times> 'a gen_scheme)" where
  "betweens [] g = Inr ([], g)"
| "betweens ((T, lo, hi, valueid) # cs) g =
     (case between T lo hi valueid g of
        Inl e \<Rightarrow> Inl e
      | Inr (v, g1) \<Rightarrow>
          (case betweens cs g1 of
             Inl e \<Rightarrow> Inl e
           | Inr (vs, g2) \<Rightarrow> Inr (v # vs, g2)))"

text \<open>The bytes of one record of a log.\<close>

definition record_bytes :: "numty \<Rightarrow> int \<Rightarrow> nat \<Rightarrow> byte list" where
  "record_bytes T v valueid = [typetag T] @ object_bytes T v @ le_bytes sizeof_size_t valueid"

section \<open>The RamFuzz runtime: objects, harnesses, make and makenew\<close>

text \<open>
  The free store is a list of objects; \<open>new\<close> appends one.  An object is a number
  (\<open>new T(v)\<close> for an arithmetic \<open>T\<close>), an instance of a class (the name of its
  dynamic type and its state; for \<open>std::basic_string\<close> the state is its characters), a
  pointer (\<open>new T(p)\<close> for \<open>T = U *\<close>: \<open>U\<close> and the address held, \<open>None\<close> for
  null or not yet assigned) or an array of \<open>char\<close> (\<open>None\<close> for a char not yet written).
\<close>

datatype obj =
    Num numty int
  | Instance string "int list"
  | Pointer ctype "addr option"
  | Chars "int option list"

record world = gen +
  heap :: "obj list"

definition new_obj :: "obj \<Rightarrow> world \<Rightarrow> addr \<times> world" where
  "new_obj ob w = (length (heap w), w\<lparr>heap := heap w @ [ob]\<rparr>)"

definition deref :: "world \<Rightarrow> addr \<Rightarrow> obj option" where
  "deref w a = (if a < length (heap w) then Some (heap w ! a) else None)"

text \<open>\<open>gen::store\<close>: \<open>T\<close> is the static type of the pointer stored.\<close>

definition store :: "ctype \<Rightarrow> addr \<Rightarrow> world \<Rightarrow> world" where
  "store T p w = w\<lparr>storage := (storage w)(T := storage w T @ [p])\<rparr>"

text \<open>\<open>gen::reuse\<close>.\<close>

definition reuse :: "world \<Rightarrow> bool" where
  "reuse w = False"

text \<open>
  A specialization of \<open>template <class C> class harness\<close>: its constructor
  \<open>harness(runtime::gen &)\<close>, which returns the member \<open>obj\<close>; the class that \<open>obj\<close>
  is declared a pointer to; the methods of \<open>mroulette\<close>, which act on \<open>obj\<close> and on the
  engine; the functions of \<open>submakers\<close>.  \<open>mcount\<close> and \<open>subcount\<close> are the lengths
  of the two arrays.  The harnesses of user classes are generated code: parameters here.
\<close>

record harness =
  ctor :: "world \<Rightarrow> error + (addr \<times> world)"
  obj_type :: string
  mroulette :: "(addr \<Rightarrow> world \<Rightarrow> error + world) list"
  submakers :: "(world \<Rightarrow> error + (addr option \<times> world)) list"

definition mcount :: "harness \<Rightarrow> nat" where
  "mcount H = length (mroulette H)"

definition subcount :: "harness \<Rightarrow> nat" where
  "subcount H = length (submakers H)"

text \<open>
  What the header takes from outside: \<open>runtime::spinlimit\<close> ("Should be defined in
  user's code"), the harness of every class, the type tags of the types the header
  itself samples, whether \<open>char\<close> is signed, and \<open>max_size()\<close> of a string.
\<close>

datatype builtin = t_char | t_int | t_unsigned | t_size_t | t_double

record env =
  spinlimit :: nat
  harness :: "string \<Rightarrow> harness"
  typetags :: "builtin \<Rightarrow> byte"
  char_signed :: bool
  max_size :: nat

definition char_ty :: "env \<Rightarrow> numty" where
  "char_ty E = \<lparr>typetag = typetags E t_char, sizeof = 1, is_signed = char_signed E\<rparr>"

definition int_ty :: "env \<Rightarrow> numty" where
  "int_ty E = \<lparr>typetag = typetags E t_int, sizeof = 4, is_signed = True\<rparr>"

definition unsigned_ty :: "env \<Rightarrow> numty" where
  "unsigned_ty E = \<lparr>typetag = typetags E t_unsigned, sizeof = 4, is_signed = False\<rparr>"

definition size_t_ty :: "env \<Rightarrow> numty" where
  "size_t_ty E = \<lparr>typetag = typetags E t_size_t, sizeof = sizeof_size_t, is_signed = False\<rparr>"

text \<open>
  A \<open>double\<close> is its IEEE 754 bit pattern read as a signed 64-bit integer: on the
  doubles that are not negative and not NaN the order of the patterns is the order of the
  numbers.  \<open>0.\<close>, \<open>0.5\<close>, \<open>1.\<close> and infinity are the patterns \<open>0\<close>,
  \<open>0x3FE0000000000000\<close>, \<open>0x3FF0000000000000\<close> and \<open>0x7FF0000000000000\<close>.
\<close>

definition double_ty :: "env \<Rightarrow> numty" where
  "double_ty E = \<lparr>typetag = typetags E t_double, sizeof = 8, is_signed = True\<rparr>"

definition double_one :: int where
  "double_one = 0x3FF0000000000000"

definition double_gt_half :: "int \<Rightarrow> bool" where
  "double_gt_half v \<longleftrightarrow> 0x3FE0000000000000 < v \<and> v \<le> 0x7FF0000000000000"

text \<open>
  The loop of the class overload of \<open>makenew\<close>:
  \<open>for (auto i = 0u, e = ...; i < e; ++i) (h.*h.mroulette[between(0u, h.mcount - 1, valueid)])();\<close>
  It returns the final \<open>i\<close>, the number of methods invoked, with the state.
\<close>

function spin :: "env \<Rightarrow> harness \<Rightarrow> addr \<Rightarrow> nat \<Rightarrow> nat \<Rightarrow> nat \<Rightarrow> world \<Rightarrow> error + (nat \<times> world)" where
  "spin E H ob valueid i e w =
     (if i < e then
        (case between (unsigned_ty E) 0 (int (mcount H) - 1) valueid w of
           Inl err \<Rightarrow> Inl err
         | Inr (k, w1) \<Rightarrow>
             if nat k < mcount H then
               (case (mroulette H ! nat k) ob w1 of
                  Inl err \<Rightarrow> Inl err
                | Inr w2 \<Rightarrow> spin E H ob valueid (i + 1) e w2)
             else Inl out_of_bounds)
      else Inr (i, w))"
  by pat_completeness auto
termination
  by (relation "measure (\<lambda>(E, H, ob, valueid, i, e, w). e - i)") auto

text \<open>The statement \<open>if (h.mcount) { for ... }\<close> of the class overload.\<close>

definition roulette :: "env \<Rightarrow> harness \<Rightarrow> addr \<Rightarrow> nat \<Rightarrow> world \<Rightarrow> error + (nat \<times> world)" where
  "roulette E H ob valueid w =
     (if mcount H \<noteq> 0 then
        (case between (unsigned_ty E) 0 (int (spinlimit E)) valueid w of
           Inl err \<Rightarrow> Inl err
         | Inr (e, w1) \<Rightarrow> spin E H ob valueid 0 (nat e) w1)
      else Inr (0, w))"

text \<open>
  The condition
  \<open>harness<T>::subcount && allow_subclass && between(0., 1., valueid) > 0.5\<close>,
  evaluated from left to right.
\<close>

definition subclass_branch :: "env \<Rightarrow> harness \<Rightarrow> nat \<Rightarrow> bool \<Rightarrow> world \<Rightarrow> error + (bool \<times> world)" where
  "subclass_branch E H valueid allow_subclass w =
     (if subcount H \<noteq> 0 \<and> allow_subclass then
        (case between (double_ty E) 0 double_one valueid w of
           Inl err \<Rightarrow> Inl err
         | Inr (v, w1) \<Rightarrow> Inr (double_gt_half v, w1))
      else Inr (False, w))"

text \<open>The overload of \<open>makenew\<close> for classes and unions.\<close>

definition makenew_class :: "env \<Rightarrow> string \<Rightarrow> nat \<Rightarrow> bool \<Rightarrow> world \<Rightarrow> error + (addr option \<times> world)" where
  "makenew_class E c valueid allow_subclass w =
     (case subclass_branch E (harness E c) valueid allow_subclass w of
        Inl err \<Rightarrow> Inl err
      | Inr (True, w1) \<Rightarrow>
          (case between (size_t_ty E) 0 (int (subcount (harness E c)) - 1) valueid w1 of
             Inl err \<Rightarrow> Inl err
           | Inr (k, w2) \<Rightarrow>
               if nat k < subcount (harness E c) then (submakers (harness E c) ! nat k) w2
               else Inl out_of_bounds)
      | Inr (False, w1) \<Rightarrow>
          (case ctor (harness E c) w1 of
             Inl err \<Rightarrow> Inl err
           | Inr (ob, w2) \<Rightarrow>
               (case roulette E (harness E c) ob valueid w2 of
                  Inl err \<Rightarrow> Inl err
                | Inr (n, w3) \<Rightarrow> Inr (Some ob, store (Class (obj_type (harness E c))) ob w3))))"

text \<open>Writing one char of an array: \<open>(*r)[i] = c\<close>.\<close>

definition chars_write :: "addr \<Rightarrow> nat \<Rightarrow> int \<Rightarrow> world \<Rightarrow> error + world" where
  "chars_write a i c w =
     (case deref w a of
        Some (Chars cs) \<Rightarrow>
          if i < length cs then Inr (w\<lparr>heap := (heap w)[a := Chars (cs[i := Some c])]\<rparr>)
          else Inl out_of_bounds
      | _ \<Rightarrow> Inl invalid_pointer)"

text \<open>
  The loop of the \<open>char *\<close> overload:
  \<open>for (size_t i = 0; i < sz; ++i) (*r)[i] = between(min, max, valueid);\<close>
\<close>

function fill_chars :: "env \<Rightarrow> addr \<Rightarrow> nat \<Rightarrow> nat \<Rightarrow> nat \<Rightarrow> world \<Rightarrow> error + world" where
  "fill_chars E a valueid i sz w =
     (if i < sz then
        (case between (char_ty E) (numeric_min (char_ty E)) (numeric_max (char_ty E)) valueid w of
           Inl err \<Rightarrow> Inl err
         | Inr (c, w1) \<Rightarrow>
             (case chars_write a i c w1 of
                Inl err \<Rightarrow> Inl err
              | Inr w2 \<Rightarrow> fill_chars E a valueid (i + 1) sz w2))
      else Inr w)"
  by pat_completeness auto
termination
  by (relation "measure (\<lambda>(E, a, valueid, i, sz, w). sz - i)") auto

text \<open>
  The \<open>char *\<close> overload after \<open>sz\<close> is known: \<open>*r = new char[sz + 1]\<close> (the sum is
  a \<open>size_t\<close> and wraps), \<open>(*r)[sz] = '\0'\<close>, the loop, \<open>return r\<close>.
\<close>

definition char_ptr_rest :: "env \<Rightarrow> addr \<Rightarrow> nat \<Rightarrow> nat \<Rightarrow> world \<Rightarrow> error + (addr option \<times> world)" where
  "char_ptr_rest E r sz valueid w =
     (case new_obj (Chars (replicate ((sz + 1) mod 2 ^ 64) None)) w of
        (a, w1) \<Rightarrow>
          (case chars_write a sz 0 (w1\<lparr>heap := (heap w1)[r := Pointer (Arith (char_ty E)) (Some a)]\<rparr>) of
             Inl err \<Rightarrow> Inl err
           | Inr w2 \<Rightarrow>
               (case fill_chars E a valueid 0 sz w2 of
                  Inl err \<Rightarrow> Inl err
                | Inr w3 \<Rightarrow> Inr (Some r, w3))))"

text \<open>Reading \<open>*p\<close> for a pointer \<open>p\<close> to a number.\<close>

definition num_at :: "world \<Rightarrow> addr option \<Rightarrow> error + int" where
  "num_at w p =
     (case p of
        None \<Rightarrow> Inl invalid_pointer
      | Some a \<Rightarrow> (case deref w a of Some (Num T v) \<Rightarrow> Inr v | _ \<Rightarrow> Inl invalid_pointer))"

text \<open>
  \<open>gen::make\<close> and the overloads of \<open>gen::makenew\<close>.  \<open>is_char_ptr\<close> holds of a
  pointer to \<open>char\<close>.
\<close>

fun make :: "env \<Rightarrow> ctype \<Rightarrow> nat \<Rightarrow> bool \<Rightarrow> world \<Rightarrow> error + (addr option \<times> world)"
  and makenew :: "env \<Rightarrow> ctype \<Rightarrow> nat \<Rightarrow> bool \<Rightarrow> world \<Rightarrow> error + (addr option \<times> world)" where
  "make E T valueid allow_subclass w =
     (if storage w T \<noteq> [] \<and> reuse w then
        (case between (size_t_ty E) 0 (int (length (storage w T)) - 1) valueid w of
           Inl err \<Rightarrow> Inl err
         | Inr (k, w1) \<Rightarrow>
             if nat k < length (storage w1 T) then Inr (Some (storage w1 T ! nat k), w1)
             else Inl out_of_bounds)
      else makenew E T valueid allow_subclass w)"
| "makenew E (Arith T) valueid allow_subclass w =
     (case between T (numeric_min T) (numeric_max T) valueid w of
        Inl err \<Rightarrow> Inl err
      | Inr (v, w1) \<Rightarrow>
          (case new_obj (Num T v) w1 of (p, w2) \<Rightarrow> Inr (Some p, store (Arith T) p w2)))"
| "makenew E (Class c) valueid allow_subclass w = makenew_class E c valueid allow_subclass w"
| "makenew E Void valueid allow_subclass w =
     (case between (int_ty E) 1 4196 valueid w of
        Inl err \<Rightarrow> Inl err
      | Inr (n, w1) \<Rightarrow>
          if n < 0 then Inl bad_array_new_length
          else (case new_obj (Chars (replicate (nat n) None)) w1 of
                  (p, w2) \<Rightarrow> Inr (Some p, store Void p w2)))"
| "makenew E (Ptr T) valueid allow_subclass w =
     (if T = Arith (char_ty E) then
        (case new_obj (Pointer T None) w of
           (r, w0) \<Rightarrow>
             (case make E (Arith (size_t_ty E)) ((1000000 + valueid) mod 2 ^ 64) False w0 of
                Inl err \<Rightarrow> Inl err
              | Inr (p, w1) \<Rightarrow>
                  (case num_at w1 p of
                     Inl err \<Rightarrow> Inl err
                   | Inr sz \<Rightarrow> char_ptr_rest E r (nat sz) valueid w1)))
      else
        (case make E T valueid allow_subclass w of
           Inl err \<Rightarrow> Inl err
         | Inr (p, w1) \<Rightarrow>
             (case new_obj (Pointer T p) w1 of (q, w2) \<Rightarrow> Inr (Some q, store (Ptr T) q w2))))"
| "makenew E Func valueid allow_subclass w = Inr (None, w)"

section \<open>The built-in harnesses of std::exception and std::basic_string\<close>

text \<open>\<open>harness<std::exception>\<close>: \<open>obj(new std::exception)\<close>, no methods, no subclasses.\<close>

definition exception_harness :: harness where
  "exception_harness =
     \<lparr>ctor = (\<lambda>w. Inr (new_obj (Instance ''std::exception'' []) w)),
      obj_type = ''std::exception'', mroulette = [], submakers = []\<rparr>"

text \<open>
  The loop of the constructor of \<open>harness<std::basic_string>\<close>:
  \<open>for (size_t i = 0; i < obj->size() - 1; ++i) obj[i] = g.between<CharT>(1, max, 4);\<close>
  \<open>obj\<close> is the pointer to the string, so \<open>obj[i]\<close> is the \<open>i\<close>-th string of an array
  of strings that starts at \<open>*obj\<close>: \<open>obj[0]\<close> is the string itself, and assigning a
  character to it makes it the string of that one character; \<open>obj[i]\<close> for \<open>0 < i\<close> is
  outside the one string allocated.  \<open>obj->size() - 1\<close> is a \<open>size_t\<close> and wraps.
\<close>

function string_fill :: "env \<Rightarrow> addr \<Rightarrow> nat \<Rightarrow> world \<Rightarrow> error + world" where
  "string_fill E ob i w =
     (case deref w ob of
        Some (Instance c s) \<Rightarrow>
          if i < (length s + 2 ^ 64 - 1) mod 2 ^ 64 then
            (case between (char_ty E) 1 (numeric_max (char_ty E)) 4 w of
               Inl err \<Rightarrow> Inl err
             | Inr (ch, w1) \<Rightarrow>
                 if i = 0 then string_fill E ob (i + 1) (w1\<lparr>heap := (heap w1)[ob := Instance c [ch]]\<rparr>)
                 else Inl out_of_bounds)
          else Inr w
      | _ \<Rightarrow> Inl invalid_pointer)"
  by pat_completeness auto
termination
  by (relation "measure (\<lambda>(E, ob, i, w). 1 - i)") auto

text \<open>\<open>obj->back() = CharT(0)\<close>.\<close>

definition string_set_back :: "addr \<Rightarrow> int \<Rightarrow> world \<Rightarrow> error + world" where
  "string_set_back ob ch w =
     (case deref w ob of
        Some (Instance c s) \<Rightarrow>
          if s = [] then Inl out_of_bounds
          else Inr (w\<lparr>heap := (heap w)[ob := Instance c (butlast s @ [ch])]\<rparr>)
      | _ \<Rightarrow> Inl invalid_pointer)"

text \<open>
  The constructor of \<open>harness<std::basic_string>\<close>:
  \<open>obj(new std::basic_string(*g.make<size_t>(3), CharT()))\<close>, which throws
  \<open>std::length_error\<close> beyond \<open>max_size()\<close>, then the loop, then \<open>back()\<close>.
\<close>

definition string_ctor :: "env \<Rightarrow> world \<Rightarrow> error + (addr \<times> world)" where
  "string_ctor E w =
     (case make E (Arith (size_t_ty E)) 3 False w of
        Inl err \<Rightarrow> Inl err
      | Inr (p, w1) \<Rightarrow>
          (case num_at w1 p of
             Inl err \<Rightarrow> Inl err
           | Inr n \<Rightarrow>
               if max_size E < nat n then Inl length_error
               else (case new_obj (Instance ''std::basic_string'' (replicate (nat n) 0)) w1 of
                       (ob, w2) \<Rightarrow>
                         (case string_fill E ob 0 w2 of
                            Inl err \<Rightarrow> Inl err
                          | Inr w3 \<Rightarrow>
                              (case string_set_back ob 0 w3 of
                                 Inl err \<Rightarrow> Inl err
                               | Inr w4 \<Rightarrow> Inr (ob, w4))))))"

definition string_harness :: "env \<Rightarrow> harness" where
  "string_harness E =
     \<lparr>ctor = string_ctor E, obj_type = ''std::basic_string'', mroulette = [], submakers = []\<rparr>"

text \<open>The characters of the string at an address.\<close>

definition string_at :: "world \<Rightarrow> addr \<Rightarrow> int list option" where
  "string_at w a = (case deref w a of Some (Instance c s) \<Rightarrow> Some s | _ \<Rightarrow> None)"

text \<open>\<open>runtime::depthlimit\<close>.\<close>

definition depthlimit :: nat where
  "depthlimit = 20"

section \<open>The descriptor generator (Util.cpp): globally_visible\<close>

text \<open>
  A declaration context of the Clang AST, with what \<open>globally_visible\<close> reads of it:
  the translation unit; a namespace (whether it is anonymous, its lookup parent); a C++
  record (its identifier if it has one, the access that \<open>getAccess\<close> returns for it, its
  lookup parent); any other context (a function, a linkage specification).
\<close>

datatype access = AS_public | AS_protected | AS_private | AS_none

datatype decl_context =
    TranslationUnitDecl
  | NamespaceDecl bool decl_context
  | CXXRecordDecl "string option" access decl_context
  | OtherDecl decl_context

text \<open>
  \<open>globally_visible(C)\<close>, where \<open>C\<close> is the result of a \<open>dyn_cast<CXXRecordDecl>\<close>:
  null for a context that is not a record.  \<open>visible_from\<close> is the \<open>while\<close> loop
  on \<open>ctx\<close>.
\<close>

fun globally_visible :: "decl_context \<Rightarrow> bool"
  and visible_from :: "decl_context \<Rightarrow> bool" where
  "globally_visible (CXXRecordDecl ident acc parent) =
     (if ident = None then False
      else if acc = AS_private \<or> acc = AS_protected then False
      else visible_from parent)"
| "globally_visible TranslationUnitDecl = False"
| "globally_visible (NamespaceDecl anon parent) = False"
| "globally_visible (OtherDecl parent) = False"
| "visible_from TranslationUnitDecl = True"
| "visible_from (NamespaceDecl anon parent) = (if anon then False else visible_from parent)"
| "visible_from (CXXRecordDecl ident acc parent) = globally_visible (CXXRecordDecl ident acc parent)"
| "visible_from (OtherDecl parent) = globally_visible (OtherDecl parent)"

text \<open>The contexts that enclose a declaration, innermost first.\<close>

fun enclosing :: "decl_context \<Rightarrow> decl_context list" where
  "enclosing TranslationUnitDecl = []"
| "enclosing (NamespaceDecl anon parent) = parent # enclosing parent"
| "enclosing (CXXRecordDecl ident acc parent) = parent # enclosing parent"
| "enclosing (OtherDecl parent) = parent # enclosing parent"

fun is_anonymous_namespace :: "decl_context \<Rightarrow> bool" where
  "is_anonymous_namespace (NamespaceDecl anon parent) = anon"
| "is_anonymous_namespace d = False"

fun has_name :: "decl_context \<Rightarrow> bool" where
  "has_name (CXXRecordDecl ident acc parent) = (ident \<noteq> None)"
| "has_name d = False"

fun restricted :: "decl_context \<Rightarrow> bool" where
  "restricted (CXXRecordDecl ident acc parent) = (acc = AS_private \<or> acc = AS_protected)"
| "restricted d = False"

section \<open>Logs of a sequence of calls\<close>

text \<open>
  The log of records with the given types, values and ids; the types and the ids of a
  sequence of calls; a call whose bounds are values of its type, in order.
\<close>

fun log_of :: "numty list \<Rightarrow> int list \<Rightarrow> nat list \<Rightarrow> byte list" where
  "log_of (T # Ts) (v # vs) (i # is) = record_bytes T v i @ log_of Ts vs is"
| "log_of Ts vs is = []"

definition call_types :: "call list \<Rightarrow> numty list" where
  "call_types cs = map fst cs"

definition call_ids :: "call list \<Rightarrow> nat list" where
  "call_ids cs = map (\<lambda>(T, lo, hi, valueid). valueid) cs"

definition well_typed :: "call \<Rightarrow> bool" where
  "well_typed c = (case c of (T, lo, hi, valueid) \<Rightarrow> in_range T lo \<and> in_range T hi \<and> lo \<le> hi)"

text \<open>
  An unsigned type of four bytes with tag 7, engines as the constructors of \<open>gen\<close>
  leave them (output log and storage empty), and the three calls of Scenario A.
\<close>

definition uint32_ty :: numty where
  "uint32_ty = \<lparr>typetag = 7, sizeof = 4, is_signed = False\<rparr>"

definition fresh_generate :: gen where
  "fresh_generate = \<lparr>runmode = generate, rgen = (\<lambda>n. 7 * n + 3), olog = [], ilog = [], storage = (\<lambda>T. [])\<rparr>"

definition fresh_replay :: "byte list \<Rightarrow> gen" where
  "fresh_replay l = \<lparr>runmode = replay, rgen = (\<lambda>n. 0), olog = [], ilog = l, storage = (\<lambda>T. [])\<rparr>"

definition scenario_a :: "call list" where
  "scenario_a = [(uint32_ty, 0, 10, 42), (uint32_ty, 0, 10, 42), (uint32_ty, 0, 10, 42)]"

section \<open>What the claims speak of: pools, depth, strings\<close>

text \<open>
  The dynamic type of an object (an array of \<open>char\<close> has none among the types of
  \<open>make\<close>) and of the object at an address.
\<close>

fun dyn_type :: "obj \<Rightarrow> ctype option" where
  "dyn_type (Num T v) = Some (Arith T)"
| "dyn_type (Instance c s) = Some (Class c)"
| "dyn_type (Pointer T p) = Some (Ptr T)"
| "dyn_type (Chars cs) = None"

definition type_at :: "world \<Rightarrow> addr \<Rightarrow> ctype option" where
  "type_at w a = (case deref w a of None \<Rightarrow> None | Some ob \<Rightarrow> dyn_type ob)"

text \<open>
  \<open>D\<close> is a strict subtype of \<open>T\<close>, for a subtype relation \<open>sub\<close> on types: not
  \<open>T\<close> itself.  A state is pool-safe when no pool of a type \<open>T\<close> holds the address of
  an object whose dynamic type is a strict subtype of \<open>T\<close>.
\<close>

definition strict_subtype :: "(ctype \<Rightarrow> ctype \<Rightarrow> bool) \<Rightarrow> ctype \<Rightarrow> ctype \<Rightarrow> bool" where
  "strict_subtype sub D T \<longleftrightarrow> D \<noteq> T \<and> sub D T"

definition pool_safe :: "(ctype \<Rightarrow> ctype \<Rightarrow> bool) \<Rightarrow> world \<Rightarrow> bool" where
  "pool_safe sub w \<longleftrightarrow>
     (\<forall>T. \<forall>a\<in>set (storage w T). \<forall>D. type_at w a = Some D \<longrightarrow> \<not> strict_subtype sub D T)"

text \<open>
  The invariant of \<open>storage\<close> that the proof carries: every address in the pool of
  \<open>T\<close> is the address of an object whose dynamic type is \<open>T\<close> (in the pool of
  \<open>void\<close>: of an array of \<open>char\<close>).  From \<open>w\<close> to \<open>w'\<close> the free store only
  grows and no object changes its dynamic type.
\<close>

definition typed_at :: "world \<Rightarrow> ctype \<Rightarrow> addr \<Rightarrow> bool" where
  "typed_at w T a \<longleftrightarrow>
     a < length (heap w) \<and>
     (dyn_type (heap w ! a) = Some T \<or> T = Void \<and> dyn_type (heap w ! a) = None)"

definition pool_exact :: "world \<Rightarrow> bool" where
  "pool_exact w \<longleftrightarrow> (\<forall>T. \<forall>a\<in>set (storage w T). typed_at w T a)"

definition types_stable :: "world \<Rightarrow> world \<Rightarrow> bool" where
  "types_stable w w' \<longleftrightarrow>
     length (heap w) \<le> length (heap w') \<and>
     (\<forall>a<length (heap w). dyn_type (heap w' ! a) = dyn_type (heap w ! a))"

definition keeps_pools :: "world \<Rightarrow> world \<Rightarrow> bool" where
  "keeps_pools w w' \<longleftrightarrow> (pool_exact w \<longrightarrow> pool_exact w') \<and> types_stable w w'"

text \<open>
  What is asked of a harness, which is code outside the header: its constructor, its
  methods and its functions for subclasses keep the invariant, and its constructor returns
  an object whose dynamic type is the class that \<open>obj\<close> points to (the header's comment
  on \<open>harness\<close>: the constructor methods "allocate a new C").
\<close>

definition harness_ok :: "harness \<Rightarrow> bool" where
  "harness_ok H \<longleftrightarrow>
     (\<forall>w ob w'. ctor H w = Inr (ob, w') \<longrightarrow>
        keeps_pools w w' \<and> type_at w' ob = Some (Class (obj_type H))) \<and>
     (\<forall>m\<in>set (mroulette H). \<forall>ob w w'. m ob w = Inr w' \<longrightarrow> keeps_pools w w') \<and>
     (\<forall>s\<in>set (submakers H). \<forall>w p w'. s w = Inr (p, w') \<longrightarrow> keeps_pools w w')"

text \<open>
  The states of an engine: as a constructor of \<open>gen\<close> leaves it, with an empty
  \<open>storage\<close>, and after any call of the public \<open>make\<close> and \<open>between\<close>.
\<close>

inductive reachable :: "env \<Rightarrow> world \<Rightarrow> bool" for E :: env where
  fresh: "storage w = (\<lambda>T. []) \<Longrightarrow> reachable E w"
| after_make: "reachable E w \<Longrightarrow> make E T valueid allow_subclass w = Inr (p, w') \<Longrightarrow> reachable E w'"
| after_between: "reachable E w \<Longrightarrow> between T lo hi valueid w = Inr (v, w') \<Longrightarrow> reachable E w'"

text \<open>
  The type \<open>T\<close> with \<open>n\<close> levels of indirection; an address that holds a pointer to a
  pointer ... (\<open>n\<close> levels) to a number; the result of a call of \<open>make\<close> is such an
  address.
\<close>

fun pointer_to :: "nat \<Rightarrow> ctype \<Rightarrow> ctype" where
  "pointer_to 0 T = T"
| "pointer_to (Suc n) T = Ptr (pointer_to n T)"

fun nested :: "obj list \<Rightarrow> nat \<Rightarrow> addr \<Rightarrow> bool" where
  "nested h 0 a = (a < length h \<and> (case h ! a of Num T v \<Rightarrow> True | _ \<Rightarrow> False))"
| "nested h (Suc n) a =
     (a < length h \<and> (case h ! a of Pointer T (Some b) \<Rightarrow> nested h n b | _ \<Rightarrow> False))"

definition made_depth :: "error + (addr option \<times> world) \<Rightarrow> nat \<Rightarrow> bool" where
  "made_depth r n = (case r of Inr (Some a, w') \<Rightarrow> nested (heap w') n a | _ \<Rightarrow> False)"

text \<open>
  The string that a call of the constructor of a harness returned, and what that call left
  of the input log.
\<close>

definition made_string :: "error + (addr \<times> world) \<Rightarrow> int list option" where
  "made_string r = (case r of Inr (ob, w') \<Rightarrow> string_at w' ob | Inl e \<Rightarrow> None)"

definition log_left :: "error + (addr \<times> world) \<Rightarrow> byte list" where
  "log_left r = (case r of Inr (ob, w') \<Rightarrow> ilog w' | Inl e \<Rightarrow> [])"

section \<open>Example classes, engines and logs\<close>

text \<open>
  A class \<open>Counter\<close> with one method, which increments the state of the object; an
  environment with \<open>spinlimit = 3\<close>; an engine with its free store as a constructor of
  \<open>gen\<close> leaves it, and the same with one \<open>Counter\<close> allocated; a class \<open>Base\<close>
  whose one subclass is \<open>Counter\<close>; a class declared in a named namespace.
\<close>

definition counter_bump :: "addr \<Rightarrow> world \<Rightarrow> error + world" where
  "counter_bump ob w =
     (case deref w ob of
        Some (Instance c [k]) \<Rightarrow> Inr (w\<lparr>heap := (heap w)[ob := Instance c [k + 1]]\<rparr>)
      | _ \<Rightarrow> Inl invalid_pointer)"

definition counter_harness :: harness where
  "counter_harness =
     \<lparr>ctor = (\<lambda>w. Inr (new_obj (Instance ''Counter'' [0]) w)),
      obj_type = ''Counter'', mroulette = [counter_bump], submakers = []\<rparr>"

definition test_env :: env where
  "test_env =
     \<lparr>spinlimit = 3,
      harness = (\<lambda>c. if c = ''Counter'' then counter_harness else exception_harness),
      typetags = (\<lambda>b. case b of t_char \<Rightarrow> 1 | t_int \<Rightarrow> 5 | t_unsigned \<Rightarrow> 6 | t_size_t \<Rightarrow> 8 | t_double \<Rightarrow> 11),
      char_signed = True, max_size = 2 ^ 62\<rparr>"

definition fresh_world :: "runmode \<Rightarrow> byte list \<Rightarrow> world" where
  "fresh_world m l =
     \<lparr>runmode = m, rgen = (\<lambda>n. 7 * n + 3), olog = [], ilog = l, storage = (\<lambda>T. []), heap = []\<rparr>"

definition counter_world :: "runmode \<Rightarrow> byte list \<Rightarrow> world" where
  "counter_world m l = (fresh_world m l)\<lparr>heap := [Instance ''Counter'' [0]]\<rparr>"

definition base_harness :: harness where
  "base_harness =
     \<lparr>ctor = (\<lambda>w. Inr (new_obj (Instance ''Base'' []) w)),
      obj_type = ''Base'', mroulette = [],
      submakers = [make test_env (Class ''Counter'') 9 False]\<rparr>"

definition sub_env :: env where
  "sub_env = test_env\<lparr>harness := (\<lambda>c. if c = ''Base'' then base_harness else harness test_env c)\<rparr>"

definition visible_class :: decl_context where
  "visible_class = CXXRecordDecl (Some ''A'') AS_none (NamespaceDecl False TranslationUnitDecl)"

text \<open>
  Input logs: a count of 5 methods, then 5 choices of a method; the value \<open>1.\<close> of
  the coin, the choice of the subclass, a count of 0 methods; the length \<open>2^64 - 1\<close>;
  the length 3, then three characters.
\<close>

definition spin_log :: "byte list" where
  "spin_log =
     log_of [unsigned_ty test_env, unsigned_ty test_env, unsigned_ty test_env, unsigned_ty test_env,
             unsigned_ty test_env, unsigned_ty test_env]
       [5, 0, 0, 0, 0, 0] [9, 9, 9, 9, 9, 9]"

definition sub_log :: "byte list" where
  "sub_log = log_of [double_ty test_env, size_t_ty test_env, unsigned_ty test_env] [double_one, 0, 0] [9, 9, 9]"

definition overflow_log :: "byte list" where
  "overflow_log = record_bytes (size_t_ty test_env) 18446744073709551615 1000009"

definition string_log :: "byte list" where
  "string_log =
     log_of [size_t_ty test_env, char_ty test_env, char_ty test_env, char_ty test_env]
       [3, 65, 66, 67] [3, 4, 4, 4]"

section \<open>Encoding lemmas\<close>

lemma length_le_bytes: "length (le_bytes n x) = n"
  by (induction n arbitrary: x) simp_all

lemma le_nat_le_bytes: "le_nat (le_bytes n x) = x mod 256 ^ n"
proof (induction n arbitrary: x)
  case 0
  show ?case by simp
next
  case (Suc n)
  have "unat (word_of_nat (x mod 256) :: byte) = x mod 256"
    by (simp add: unat_of_nat)
  then have "le_nat (le_bytes (Suc n) x) = x mod 256 + 256 * ((x div 256) mod 256 ^ n)"
    using Suc by simp
  also have "\<dots> = x mod 256 ^ Suc n"
    by (simp add: mod_mult2_eq)
  finally show ?case .
qed

lemma le_nat_bound: "le_nat bs < 256 ^ length bs"
proof (induction bs)
  case Nil
  show ?case by simp
next
  case (Cons b bs)
  have "unat b < 256"
    using unsigned_less [of b] by simp
  then show ?case
    using Cons by simp
qed

lemma length_object_bytes: "length (object_bytes T v) = sizeof T"
  by (simp add: object_bytes_def length_le_bytes)

lemma le_nat_object_bytes: "int (le_nat (object_bytes T v)) = v mod 2 ^ (8 * sizeof T)"
proof -
  have "(256::nat) ^ sizeof T = 2 ^ (8 * sizeof T)"
    by (simp add: power_mult)
  moreover have "nat (v mod 2 ^ (8 * sizeof T)) < 2 ^ (8 * sizeof T)"
    by (simp add: nat_less_iff)
  ultimately show ?thesis
    by (simp add: object_bytes_def le_nat_le_bytes)
qed

lemma object_value_object_bytes:
  assumes "in_range T v"
  shows "object_value T (object_bytes T v) = v"
proof (cases "is_signed T")
  case False
  with assms have "0 \<le> v" "v < 2 ^ (8 * sizeof T)"
    by (simp_all add: in_range_def numeric_min_def numeric_max_def)
  then show ?thesis using False
    by (simp add: object_value_def le_nat_object_bytes)
next
  case True
  obtain n where n: "sizeof T = Suc n"
    using assms by (cases "sizeof T") (simp_all add: in_range_def)
  have "8 * sizeof T = Suc (8 * sizeof T - 1)"
    by (simp add: n)
  then have p: "(2::int) ^ (8 * sizeof T) = 2 * 2 ^ (8 * sizeof T - 1)"
    by (metis power_Suc)
  from assms True have r: "- (2 ^ (8 * sizeof T - 1)) \<le> v" "v < 2 ^ (8 * sizeof T - 1)"
    by (simp_all add: in_range_def numeric_min_def numeric_max_def)
  show ?thesis
  proof (cases "0 \<le> v")
    case True
    then have "v mod 2 ^ (8 * sizeof T) = v"
      using r p by simp
    then show ?thesis using r
      by (simp add: object_value_def le_nat_object_bytes Let_def)
  next
    case False
    define N :: int where "N = 2 ^ (8 * sizeof T)"
    define M :: int where "M = 2 ^ (8 * sizeof T - 1)"
    have NM: "N = 2 * M" "- M \<le> v" "v < 0" "0 < M"
      using p r False by (simp_all add: N_def M_def)
    have "v mod N = (v + N) mod N"
      by simp
    also have "\<dots> = v + N"
      using NM by (intro mod_pos_pos_trivial) simp_all
    finally have "v mod N = v + N" .
    moreover have "M \<le> v + N"
      using NM by simp
    ultimately show ?thesis using \<open>is_signed T\<close>
      by (simp add: object_value_def le_nat_object_bytes Let_def N_def M_def)
  qed
qed

section \<open>Sampling: between in the two modes\<close>

lemma uniform_random_range:
  assumes "lo \<le> hi"
  shows "lo \<le> fst (uniform_random lo hi g) \<and> fst (uniform_random lo hi g) \<le> hi"
proof -
  have "0 < nat (hi - lo + 1)"
    using assms by simp
  then have "rgen g 0 mod nat (hi - lo + 1) < nat (hi - lo + 1)"
    by (rule mod_less_divisor)
  then have "int (rgen g 0 mod nat (hi - lo + 1)) \<le> hi - lo"
    using assms by linarith
  then show ?thesis
    using assms by (simp add: uniform_random_def)
qed

lemma uniform_random_state:
  "runmode (snd (uniform_random lo hi g)) = runmode g"
  "olog (snd (uniform_random lo hi g)) = olog g"
  "ilog (snd (uniform_random lo hi g)) = ilog g"
  "storage (snd (uniform_random lo hi g)) = storage g"
  by (simp_all add: uniform_random_def)

lemma between_generate:
  assumes "runmode g = generate"
  shows "between T lo hi valueid g =
           Inr (fst (uniform_random lo hi g),
                gen_output T (fst (uniform_random lo hi g)) valueid (snd (uniform_random lo hi g)))"
  using assms by (simp add: between_def split: prod.splits)

lemma gen_output_olog:
  "olog (gen_output T v valueid g) = olog g @ record_bytes T v valueid"
  by (simp add: gen_output_def record_bytes_def)

lemma gen_output_state:
  "runmode (gen_output T v valueid g) = runmode g"
  "ilog (gen_output T v valueid g) = ilog g"
  "rgen (gen_output T v valueid g) = rgen g"
  "storage (gen_output T v valueid g) = storage g"
  by (simp_all add: gen_output_def)

lemma gen_input_record:
  assumes "ilog g = [typetag T] @ bs @ idb @ rest" "length bs = sizeof T" "length idb = sizeof_size_t"
  shows "gen_input T g = Inr (object_value T bs, g\<lparr>ilog := rest\<rparr>)"
  using assms by (simp add: gen_input_def ilog_get_def ilog_read_def)

lemma gen_input_record_bytes:
  assumes "ilog g = record_bytes T v i @ rest" "in_range T v"
  shows "gen_input T g = Inr (v, g\<lparr>ilog := rest\<rparr>)"
proof -
  have "ilog g = [typetag T] @ object_bytes T v @ le_bytes sizeof_size_t i @ rest"
    using assms(1) by (simp add: record_bytes_def)
  then have "gen_input T g = Inr (object_value T (object_bytes T v), g\<lparr>ilog := rest\<rparr>)"
    by (rule gen_input_record) (simp_all add: length_object_bytes length_le_bytes)
  then show ?thesis
    by (simp add: object_value_object_bytes assms(2))
qed

lemma gen_input_unsigned_range:
  assumes "gen_input T g = Inr (v, g')" "\<not> is_signed T"
  shows "0 \<le> v \<and> v < 2 ^ (8 * sizeof T)"
proof -
  define bs where "bs = take (sizeof T) (tl (ilog g))"
  from assms have bs: "length bs = sizeof T" "v = int (le_nat bs)"
    by (auto simp: bs_def gen_input_def ilog_get_def ilog_read_def object_value_def Let_def
        split: list.splits if_splits)
  have "le_nat bs < 256 ^ length bs"
    by (rule le_nat_bound)
  also have "(256::nat) ^ length bs = 2 ^ (8 * sizeof T)"
    by (simp add: bs(1) power_mult)
  finally have "int (le_nat bs) < int (2 ^ (8 * sizeof T))"
    by (simp only: of_nat_less_iff)
  then show ?thesis
    by (simp add: bs(2))
qed

lemma between_replay_record:
  assumes "runmode g = replay" "ilog g = record_bytes T v i @ rest" "in_range T v"
  shows "between T lo hi valueid g = Inr (v, gen_output T v valueid (g\<lparr>ilog := rest\<rparr>))"
  using assms by (simp add: between_def gen_input_record_bytes)

lemma between_replay_value:
  assumes "runmode w = replay" "between T lo hi valueid w = Inr (v, w')" "0 < sizeof T"
  shows "take (Suc (sizeof T)) (ilog w) = typetag T # take (sizeof T) (tl (ilog w)) \<and>
         v = object_value T (take (sizeof T) (tl (ilog w)))"
  using assms
  by (cases "ilog w")
     (auto simp: between_def gen_input_def ilog_get_def ilog_read_def
        split: if_splits prod.splits option.splits)

lemma between_world:
  assumes "between T lo hi valueid w = Inr (v, w')"
  shows "heap w' = heap w" "storage w' = storage w" "runmode w' = runmode w"
  using assms
  by (auto simp: between_def gen_output_def uniform_random_def gen_input_def
      split: if_splits prod.splits option.splits)

lemma between_unsigned_nonneg:
  assumes "between T 0 hi valueid w = Inr (v, w')" "\<not> is_signed T" "0 \<le> hi"
  shows "0 \<le> v"
proof (cases "runmode w = generate")
  case True
  then show ?thesis
    using assms uniform_random_range [of 0 hi w] by (auto simp: between_generate)
next
  case False
  then show ?thesis
    using assms
    by (auto simp: between_def gen_input_def object_value_def Let_def
        split: if_splits prod.splits option.splits)
qed

lemma between_full_range_unsigned:
  assumes "between T (numeric_min T) (numeric_max T) valueid g = Inr (v, g')" "\<not> is_signed T"
  shows "0 \<le> v \<and> v < 2 ^ (8 * sizeof T)"
proof (cases "runmode g = generate")
  case True
  have "numeric_min T \<le> numeric_max T"
    using assms(2) by (simp add: numeric_min_def numeric_max_def)
  from uniform_random_range [OF this, of g] show ?thesis
    using assms True by (auto simp: between_generate numeric_min_def numeric_max_def)
next
  case False
  with assms(1) obtain g1 where "gen_input T g = Inr (v, g1)"
    by (auto simp: between_def split: sum.splits)
  then show ?thesis
    using assms(2) by (rule gen_input_unsigned_range)
qed

text \<open>
  The same on an engine written out field by field, for evaluating a call on a given state.
\<close>

lemma between_generate_literal:
  "between T lo hi valueid
     \<lparr>runmode = generate, rgen = r, olog = ol, ilog = il, storage = st, heap = h\<rparr> =
   Inr (if lo \<le> hi then lo + int (r 0 mod nat (hi - lo + 1)) else lo,
        \<lparr>runmode = generate, rgen = (\<lambda>n. r (Suc n)),
           olog = ol @ record_bytes T (if lo \<le> hi then lo + int (r 0 mod nat (hi - lo + 1)) else lo) valueid,
           ilog = il, storage = st, heap = h\<rparr>)"
  by (simp add: between_def uniform_random_def gen_output_def record_bytes_def)

lemma between_replay_literal:
  assumes "in_range T v"
  shows "between T lo hi valueid
           \<lparr>runmode = replay, rgen = r, olog = ol, ilog = record_bytes T v i @ rest, storage = st, heap = h\<rparr> =
         Inr (v, \<lparr>runmode = replay, rgen = r, olog = ol @ record_bytes T v valueid, ilog = rest,
                   storage = st, heap = h\<rparr>)"
  using between_replay_record [of "\<lparr>runmode = replay, rgen = r, olog = ol, ilog = record_bytes T v i @ rest,
      storage = st, heap = h\<rparr>" T v i rest lo hi valueid] assms
  by (simp add: gen_output_def record_bytes_def)

lemma between_replay_literal_last:
  assumes "in_range T v"
  shows "between T lo hi valueid
           \<lparr>runmode = replay, rgen = r, olog = ol, ilog = record_bytes T v i, storage = st, heap = h\<rparr> =
         Inr (v, \<lparr>runmode = replay, rgen = r, olog = ol @ record_bytes T v valueid, ilog = [],
                   storage = st, heap = h\<rparr>)"
  using between_replay_literal [OF assms, of lo hi valueid r ol i "[]" st h] by simp

text \<open>A sequence of calls in Generate mode, and in Replay mode on a log of its records.\<close>

lemma betweens_generate:
  assumes "runmode g = generate" "list_all well_typed cs"
  shows "\<exists>vs g'. betweens cs g = Inr (vs, g') \<and> runmode g' = generate
           \<and> olog g' = olog g @ log_of (call_types cs) vs (call_ids cs)
           \<and> list_all2 (\<lambda>c v. in_range (fst c) v) cs vs"
  using assms
proof (induction cs arbitrary: g)
  case Nil
  then show ?case by (simp add: call_types_def call_ids_def)
next
  case (Cons c cs)
  obtain T lo hi valueid where c: "c = (T, lo, hi, valueid)"
    by (cases c) auto
  define v where "v = fst (uniform_random lo hi g)"
  define g1 where "g1 = gen_output T v valueid (snd (uniform_random lo hi g))"
  have b: "between T lo hi valueid g = Inr (v, g1)"
    using Cons.prems(1) by (simp add: between_generate v_def g1_def)
  have "well_typed c" and rest: "list_all well_typed cs"
    using Cons.prems(2) by simp_all
  then have wt: "in_range T lo" "in_range T hi" "lo \<le> hi"
    by (simp_all add: c well_typed_def)
  have "lo \<le> v" "v \<le> hi"
    using uniform_random_range [OF wt(3), of g] by (simp_all add: v_def)
  then have v: "in_range T v"
    using wt by (simp add: in_range_def)
  have g1: "runmode g1 = generate" "olog g1 = olog g @ record_bytes T v valueid"
    using Cons.prems(1) by (simp_all add: g1_def gen_output_state gen_output_olog uniform_random_state)
  from Cons.IH [OF g1(1) rest] obtain vs g' where
    r: "betweens cs g1 = Inr (vs, g')" "runmode g' = generate"
       "olog g' = olog g1 @ log_of (call_types cs) vs (call_ids cs)"
       "list_all2 (\<lambda>c v. in_range (fst c) v) cs vs"
    by blast
  have "betweens (c # cs) g = Inr (v # vs, g')"
    by (simp add: c b r(1))
  moreover have "olog g' = olog g @ log_of (call_types (c # cs)) (v # vs) (call_ids (c # cs))"
    by (simp add: r(3) g1(2) c call_types_def call_ids_def)
  moreover have "list_all2 (\<lambda>c v. in_range (fst c) v) (c # cs) (v # vs)"
    using r(4) v by (simp add: c)
  ultimately show ?case
    using r(2) by blast
qed

lemma betweens_replay:
  assumes "runmode r = replay" "list_all2 (\<lambda>c v. in_range (fst c) v) cs vs"
    "length ids = length cs" "ilog r = log_of (call_types cs) vs ids @ rest"
  shows "betweens cs r =
           Inr (vs, r\<lparr>olog := olog r @ log_of (call_types cs) vs (call_ids cs), ilog := rest\<rparr>)"
  using assms
proof (induction cs arbitrary: r vs ids)
  case Nil
  then show ?case by (simp add: call_types_def call_ids_def)
next
  case (Cons c cs)
  obtain T lo hi valueid where c: "c = (T, lo, hi, valueid)"
    by (cases c) auto
  obtain v vs' where vs: "vs = v # vs'" and v: "in_range T v"
    and vs': "list_all2 (\<lambda>c v. in_range (fst c) v) cs vs'"
    using Cons.prems(2) by (auto simp: list_all2_Cons1 c)
  obtain i ids' where ids: "ids = i # ids'" and ids': "length ids' = length cs"
    using Cons.prems(3) by (cases ids) auto
  define r1 where "r1 = gen_output T v valueid (r\<lparr>ilog := log_of (call_types cs) vs' ids' @ rest\<rparr>)"
  have il: "ilog r = record_bytes T v i @ (log_of (call_types cs) vs' ids' @ rest)"
    using Cons.prems(4) by (simp add: c vs ids call_types_def)
  have b: "between T lo hi valueid r = Inr (v, r1)"
    unfolding r1_def using Cons.prems(1) il v by (rule between_replay_record)
  have r1: "runmode r1 = replay" "ilog r1 = log_of (call_types cs) vs' ids' @ rest"
    using Cons.prems(1) by (simp_all add: r1_def gen_output_state)
  have "betweens cs r1 =
          Inr (vs', r1\<lparr>olog := olog r1 @ log_of (call_types cs) vs' (call_ids cs), ilog := rest\<rparr>)"
    using r1(1) vs' ids' r1(2) by (rule Cons.IH)
  moreover have "r1\<lparr>olog := olog r1 @ log_of (call_types cs) vs' (call_ids cs), ilog := rest\<rparr> =
      r\<lparr>olog := olog r @ log_of (call_types (c # cs)) vs (call_ids (c # cs)), ilog := rest\<rparr>"
    by (simp add: r1_def gen_output_def record_bytes_def c vs call_types_def call_ids_def)
  ultimately show ?case
    by (simp add: c b vs)
qed

section \<open>The claims on between\<close>

text \<open>
  C1 (round trip).  A Generate-mode engine with a fresh output log makes a sequence of
  well-typed calls of \<open>between\<close>; all of them return.  A Replay-mode engine that reads
  the output log of that session and makes the same calls (same types, same order)
  returns the same values in the same order, and writes the same log again.
\<close>

theorem generate_replay_roundtrip:
  assumes "runmode g = generate" "olog g = []" "runmode r = replay" "list_all well_typed cs"
  shows "\<exists>vs g'. betweens cs g = Inr (vs, g') \<and>
           (\<exists>r'. betweens cs (r\<lparr>ilog := olog g'\<rparr>) = Inr (vs, r') \<and> olog r' = olog r @ olog g')"
proof -
  obtain vs g' where
    g: "betweens cs g = Inr (vs, g')" "olog g' = olog g @ log_of (call_types cs) vs (call_ids cs)"
       "list_all2 (\<lambda>c v. in_range (fst c) v) cs vs"
    using betweens_generate [OF assms(1) assms(4)] by blast
  define r0 where "r0 = r\<lparr>ilog := olog g'\<rparr>"
  have "runmode r0 = replay" "length (call_ids cs) = length cs"
    "ilog r0 = log_of (call_types cs) vs (call_ids cs) @ []"
    using assms(2,3) g(2) by (simp_all add: r0_def call_ids_def)
  with g(3) have "betweens cs r0 =
      Inr (vs, r0\<lparr>olog := olog r0 @ log_of (call_types cs) vs (call_ids cs), ilog := []\<rparr>)"
    by (intro betweens_replay)
  then show ?thesis
    using g(1,2) assms(2) by (simp add: r0_def)
qed

text \<open>The three calls \<open>between(0, 10, 42)\<close> of Scenario A.\<close>

theorem generate_replay_roundtrip_witness:
  "\<exists>vs g'. betweens scenario_a fresh_generate = Inr (vs, g') \<and>
     (\<exists>r'. betweens scenario_a ((fresh_replay [])\<lparr>ilog := olog g'\<rparr>) = Inr (vs, r')
        \<and> olog r' = olog (fresh_replay []) @ olog g')"
  using generate_replay_roundtrip [of fresh_generate "fresh_replay []" scenario_a]
  by (simp add: fresh_generate_def fresh_replay_def scenario_a_def well_typed_def in_range_def
      numeric_min_def numeric_max_def uint32_ty_def)

text \<open>
  C2.  In Generate mode a call \<open>between(lo, hi, id)\<close> with \<open>lo \<le> hi\<close> returns a
  value \<open>v\<close> with \<open>lo \<le> v \<le> hi\<close>.  In both modes a call that returns has appended
  exactly one record to the output log: the tag of \<open>T\<close>, the bytes of the value
  returned, the bytes of the id supplied.
\<close>

theorem between_range_and_record:
  "(runmode g = generate \<and> lo \<le> hi \<longrightarrow>
      (\<exists>v g'. between T lo hi valueid g = Inr (v, g') \<and> lo \<le> v \<and> v \<le> hi)) \<and>
   (\<forall>v g'. between T lo hi valueid g = Inr (v, g') \<longrightarrow>
      olog g' = olog g @ [typetag T] @ object_bytes T v @ le_bytes sizeof_size_t valueid)"
proof (intro conjI impI allI)
  assume "runmode g = generate \<and> lo \<le> hi"
  then show "\<exists>v g'. between T lo hi valueid g = Inr (v, g') \<and> lo \<le> v \<and> v \<le> hi"
    using uniform_random_range [of lo hi g] by (simp add: between_generate)
next
  fix v g'
  assume b: "between T lo hi valueid g = Inr (v, g')"
  show "olog g' = olog g @ [typetag T] @ object_bytes T v @ le_bytes sizeof_size_t valueid"
  proof (cases "runmode g = generate")
    case True
    with b show ?thesis
      by (auto simp: between_generate gen_output_def uniform_random_def)
  next
    case False
    with b obtain g1 where "gen_input T g = Inr (v, g1)" "g' = gen_output T v valueid g1"
      by (auto simp: between_def split: sum.splits)
    moreover from this(1) have "olog g1 = olog g"
      by (auto simp: gen_input_def split: prod.splits if_splits option.splits)
    ultimately show ?thesis
      by (simp add: gen_output_def)
  qed
qed

theorem between_range_and_record_witness:
  "(\<exists>v g'. between uint32_ty 0 10 42 fresh_generate = Inr (v, g') \<and> 0 \<le> v \<and> v \<le> 10) \<and>
   (\<exists>v g'. between uint32_ty 0 10 42 (fresh_replay [7, 5, 0, 0, 0, 9, 0, 0, 0, 0, 0, 0, 0]) = Inr (v, g') \<and>
      olog g' = olog (fresh_replay [7, 5, 0, 0, 0, 9, 0, 0, 0, 0, 0, 0, 0]) @
        [typetag uint32_ty] @ object_bytes uint32_ty v @ le_bytes sizeof_size_t 42)"
proof -
  have g: "runmode fresh_generate = generate \<and> (0::int) \<le> 10"
    by (simp add: fresh_generate_def)
  have a: "\<exists>v g'. between uint32_ty 0 10 42 fresh_generate = Inr (v, g') \<and> 0 \<le> v \<and> v \<le> 10"
    using between_range_and_record [where g = fresh_generate and lo = 0 and hi = 10
        and T = uint32_ty and valueid = 42] g by blast
  obtain v g' where
    b: "between uint32_ty 0 10 42 (fresh_replay [7, 5, 0, 0, 0, 9, 0, 0, 0, 0, 0, 0, 0]) = Inr (v, g')"
    by (simp add: between_def gen_input_def ilog_get_def ilog_read_def fresh_replay_def
        uint32_ty_def sizeof_size_t_def)
  then have "olog g' = olog (fresh_replay [7, 5, 0, 0, 0, 9, 0, 0, 0, 0, 0, 0, 0]) @
      [typetag uint32_ty] @ object_bytes uint32_ty v @ le_bytes sizeof_size_t 42"
    using between_range_and_record [where g = "fresh_replay [7, 5, 0, 0, 0, 9, 0, 0, 0, 0, 0, 0, 0]"
        and lo = 0 and hi = 10 and T = uint32_ty and valueid = 42] by blast
  with a b show ?thesis
    by blast
qed

text \<open>
  C5.  In Replay mode, when the tag of the next record of the input log is not the tag of
  the type being read, the assertion of \<open>gen::input\<close> fails: the call does not return,
  nothing is written and the run stops there.
\<close>

theorem replay_tag_mismatch_aborts:
  assumes "runmode g = replay" "ilog g = t # rest" "t \<noteq> typetag T"
  shows "between T lo hi valueid g = Inl assertion_failure"
  using assms by (simp add: between_def gen_input_def ilog_get_def)

theorem replay_tag_mismatch_aborts_witness:
  "between uint32_ty 0 10 42 (fresh_replay [8, 5, 0, 0, 0, 42, 0, 0, 0, 0, 0, 0, 0]) = Inl assertion_failure"
  using replay_tag_mismatch_aborts [of "fresh_replay [8, 5, 0, 0, 0, 42, 0, 0, 0, 0, 0, 0, 0]" 8
      "[5, 0, 0, 0, 42, 0, 0, 0, 0, 0, 0, 0]" uint32_ty 0 10 42]
  by (simp add: fresh_replay_def uint32_ty_def)

text \<open>
  C10.  In Replay mode the id stored in a record is read and dropped.  On an input log
  whose records carry the tags and values that the calls expect and any ids at all, the
  calls return what they return on the log with the ids of the calls, and leave the
  engine in the same state.
\<close>

theorem replay_ignores_ids:
  assumes "runmode r = replay" "list_all2 (\<lambda>c v. in_range (fst c) v) cs vs" "length ids = length cs"
  shows "betweens cs (r\<lparr>ilog := log_of (call_types cs) vs ids @ rest\<rparr>) =
           betweens cs (r\<lparr>ilog := log_of (call_types cs) vs (call_ids cs) @ rest\<rparr>) \<and>
         (\<exists>r'. betweens cs (r\<lparr>ilog := log_of (call_types cs) vs ids @ rest\<rparr>) = Inr (vs, r'))"
proof -
  have l: "length (call_ids cs) = length cs"
    by (simp add: call_ids_def)
  have "betweens cs (r\<lparr>ilog := log_of (call_types cs) vs ids @ rest\<rparr>) =
      Inr (vs, r\<lparr>olog := olog r @ log_of (call_types cs) vs (call_ids cs), ilog := rest\<rparr>)"
    using betweens_replay [of "r\<lparr>ilog := log_of (call_types cs) vs ids @ rest\<rparr>" cs vs ids rest]
      assms by simp
  moreover have "betweens cs (r\<lparr>ilog := log_of (call_types cs) vs (call_ids cs) @ rest\<rparr>) =
      Inr (vs, r\<lparr>olog := olog r @ log_of (call_types cs) vs (call_ids cs), ilog := rest\<rparr>)"
    using betweens_replay [of "r\<lparr>ilog := log_of (call_types cs) vs (call_ids cs) @ rest\<rparr>" cs vs
        "call_ids cs" rest] assms l by simp
  ultimately show ?thesis
    by simp
qed

theorem replay_ignores_ids_witness:
  "betweens scenario_a ((fresh_replay [])\<lparr>ilog := log_of (call_types scenario_a) [3, 10, 0] [1, 2, 3] @ []\<rparr>) =
     betweens scenario_a ((fresh_replay [])\<lparr>ilog := log_of (call_types scenario_a) [3, 10, 0] (call_ids scenario_a) @ []\<rparr>) \<and>
   (\<exists>r'. betweens scenario_a ((fresh_replay [])\<lparr>ilog := log_of (call_types scenario_a) [3, 10, 0] [1, 2, 3] @ []\<rparr>) =
      Inr ([3, 10, 0], r'))"
proof -
  have m: "runmode (fresh_replay []) = replay"
    by (simp add: fresh_replay_def)
  have v: "list_all2 (\<lambda>c v. in_range (fst c) v) scenario_a [3, 10, 0]"
    by (simp add: scenario_a_def in_range_def numeric_min_def numeric_max_def uint32_ty_def)
  have l: "length [1, 2, 3 :: nat] = length scenario_a"
    by (simp add: scenario_a_def)
  show ?thesis
    by (rule replay_ignores_ids [OF m v l])
qed

section \<open>The method roulette\<close>

declare spin.simps [simp del] fill_chars.simps [simp del] string_fill.simps [simp del]

lemma spin_count:
  "spin E H ob valueid i e w = Inr (n, w') \<Longrightarrow> n = max i e"
proof (induction E H ob valueid i e w rule: spin.induct)
  case (1 E H ob valueid i e w)
  show ?case
  proof (cases "i < e")
    case False
    with "1.prems" show ?thesis
      by (simp add: spin.simps)
  next
    case True
    with "1.prems" obtain k w1 w2 where
      s: "between (unsigned_ty E) 0 (int (mcount H) - 1) valueid w = Inr (k, w1)"
         "nat k < mcount H" "(mroulette H ! nat k) ob w1 = Inr w2"
         "spin E H ob valueid (i + 1) e w2 = Inr (n, w')"
      by (subst (asm) spin.simps) (auto split: sum.splits if_splits)
    from "1.IH" [OF True s(1) refl s(2) s(3) s(4)] True show ?thesis
      by simp
  qed
qed

text \<open>
  C6, as amended.  The methods invoked on a freshly constructed instance: in Generate mode
  their number is at most \<open>spinlimit\<close>; when the harness has no method, none is invoked
  and nothing is sampled; in Replay mode, with at least one method, their number is the
  value of the next record of the input log, whatever \<open>spinlimit\<close> is.
\<close>

theorem roulette_count:
  assumes "roulette E H ob valueid w = Inr (n, w')"
  shows "(runmode w = generate \<longrightarrow> n \<le> spinlimit E) \<and>
         (mcount H = 0 \<longrightarrow> n = 0 \<and> w' = w) \<and>
         (runmode w = replay \<and> mcount H \<noteq> 0 \<longrightarrow>
            take 5 (ilog w) = typetag (unsigned_ty E) # take 4 (tl (ilog w)) \<and>
            int n = object_value (unsigned_ty E) (take 4 (tl (ilog w))))"
proof (cases "mcount H = 0")
  case True
  with assms show ?thesis
    by (simp add: roulette_def)
next
  case False
  with assms obtain e w1 where
    b: "between (unsigned_ty E) 0 (int (spinlimit E)) valueid w = Inr (e, w1)"
    and s: "spin E H ob valueid 0 (nat e) w1 = Inr (n, w')"
    by (auto simp: roulette_def split: sum.splits)
  have n: "n = nat e"
    using spin_count [OF s] by simp
  have e0: "0 \<le> e"
    using b by (rule between_unsigned_nonneg) (simp_all add: unsigned_ty_def)
  have "runmode w = generate \<longrightarrow> n \<le> spinlimit E"
  proof
    assume "runmode w = generate"
    then have "e \<le> int (spinlimit E)"
      using b uniform_random_range [of 0 "int (spinlimit E)" w] by (auto simp: between_generate)
    then show "n \<le> spinlimit E"
      using n by simp
  qed
  moreover have "runmode w = replay \<longrightarrow>
      take 5 (ilog w) = typetag (unsigned_ty E) # take 4 (tl (ilog w)) \<and>
      int n = object_value (unsigned_ty E) (take 4 (tl (ilog w)))"
  proof
    assume "runmode w = replay"
    from between_replay_value [OF this b] show
      "take 5 (ilog w) = typetag (unsigned_ty E) # take 4 (tl (ilog w)) \<and>
       int n = object_value (unsigned_ty E) (take 4 (tl (ilog w)))"
      using n e0 by (simp add: unsigned_ty_def)
  qed
  ultimately show ?thesis
    using False by simp
qed

lemma spin_generate_run:
  "map_sum id fst (roulette test_env counter_harness 0 9 (counter_world generate [])) = Inr 3"
  by (simp add: roulette_def spin.simps mcount_def counter_harness_def fresh_world_def counter_world_def
     between_generate_literal counter_bump_def deref_def test_env_def)

lemma spin_replay_run:
  "map_sum id fst (roulette test_env counter_harness 0 9 (counter_world replay spin_log)) = Inr 5"
  by (simp add: roulette_def spin.simps mcount_def counter_harness_def fresh_world_def spin_log_def
     between_replay_literal between_replay_literal_last in_range_def numeric_min_def numeric_max_def
     unsigned_ty_def counter_bump_def deref_def counter_world_def)

text \<open>
  A class \<open>Counter\<close> whose one method increments the state of the object, in Generate
  mode, in Replay mode, and \<open>std::exception\<close>, which has no method.
\<close>

theorem roulette_count_witness:
  "(\<exists>n w'. roulette test_env counter_harness 0 9 (counter_world generate []) = Inr (n, w') \<and>
      n \<le> spinlimit test_env) \<and>
   (\<exists>n w'. roulette test_env exception_harness 0 9 (counter_world generate []) = Inr (n, w') \<and>
      n = 0 \<and> w' = counter_world generate []) \<and>
   (\<exists>n w'. roulette test_env counter_harness 0 9 (counter_world replay spin_log) = Inr (n, w') \<and>
      int n = object_value (unsigned_ty test_env) (take 4 (tl (ilog (counter_world replay spin_log)))))"
proof -
  obtain n1 w1 where r1: "roulette test_env counter_harness 0 9 (counter_world generate []) = Inr (n1, w1)"
    using spin_generate_run
    by (cases "roulette test_env counter_harness 0 9 (counter_world generate [])") auto
  have g: "runmode (counter_world generate []) = generate"
    by (simp add: counter_world_def fresh_world_def)
  have a: "n1 \<le> spinlimit test_env"
    using roulette_count [OF r1] g by blast
  obtain n2 w2 where r2: "roulette test_env exception_harness 0 9 (counter_world generate []) = Inr (n2, w2)"
    by (simp add: roulette_def mcount_def exception_harness_def)
  have "mcount exception_harness = 0"
    by (simp add: mcount_def exception_harness_def)
  then have b: "n2 = 0 \<and> w2 = counter_world generate []"
    using roulette_count [OF r2] by blast
  obtain n3 w3 where r3: "roulette test_env counter_harness 0 9 (counter_world replay spin_log) = Inr (n3, w3)"
    using spin_replay_run
    by (cases "roulette test_env counter_harness 0 9 (counter_world replay spin_log)") auto
  have "runmode (counter_world replay spin_log) = replay \<and> mcount counter_harness \<noteq> 0"
    by (simp add: counter_world_def fresh_world_def mcount_def counter_harness_def)
  then have c: "int n3 = object_value (unsigned_ty test_env) (take 4 (tl (ilog (counter_world replay spin_log))))"
    using roulette_count [OF r3] by blast
  from r1 a r2 b r3 c show ?thesis
    by blast
qed

lemma make_counter_run:
  "map_sum id (heap \<circ> snd) (make test_env (Class ''Counter'') 9 False (fresh_world replay spin_log))
     = Inr [Instance ''Counter'' [5]]"
  by (simp add: reuse_def makenew_class_def subclass_branch_def subcount_def new_obj_def store_def
     roulette_def spin.simps mcount_def counter_harness_def fresh_world_def spin_log_def
     between_replay_literal between_replay_literal_last in_range_def numeric_min_def numeric_max_def unsigned_ty_def
     counter_bump_def deref_def test_env_def)

text \<open>
  C6 as stated fails in Replay mode: with \<open>spinlimit = 3\<close> and an input log whose first
  record holds 5, five methods are invoked on the new \<open>Counter\<close>.
\<close>

theorem spin_exceeds_limit_in_replay:
  "map_sum id fst (roulette test_env counter_harness 0 9 (counter_world replay spin_log)) = Inr 5 \<and>
   map_sum id (heap \<circ> snd) (make test_env (Class ''Counter'') 9 False (fresh_world replay spin_log)) =
     Inr [Instance ''Counter'' [5]] \<and>
   spinlimit test_env < 5"
  using spin_replay_run make_counter_run by (simp add: test_env_def)

section \<open>The pools\<close>

lemma typed_at_stable: "types_stable w w' \<Longrightarrow> typed_at w T a \<Longrightarrow> typed_at w' T a"
  by (auto simp: types_stable_def typed_at_def)

lemma pool_exact_stable:
  assumes "pool_exact w" "types_stable w w'" "storage w' = storage w"
  shows "pool_exact w'"
  using assms typed_at_stable [OF assms(2)] by (simp add: pool_exact_def)

lemma keeps_pools_refl: "keeps_pools w w"
  by (simp add: keeps_pools_def types_stable_def)

lemma keeps_pools_trans: "keeps_pools w w1 \<Longrightarrow> keeps_pools w1 w2 \<Longrightarrow> keeps_pools w w2"
  by (auto simp: keeps_pools_def types_stable_def)

lemma keeps_pools_heap:
  assumes "types_stable w w'" "storage w' = storage w"
  shows "keeps_pools w w'"
  using assms pool_exact_stable [of w w'] by (auto simp: keeps_pools_def)

lemma keeps_pools_between:
  "between T lo hi valueid w = Inr (v, w') \<Longrightarrow> keeps_pools w w'"
  by (rule keeps_pools_heap) (simp_all add: between_world types_stable_def)

lemma keeps_pools_new_obj:
  "new_obj ob w = (a, w') \<Longrightarrow> keeps_pools w w'"
  by (rule keeps_pools_heap) (auto simp: new_obj_def types_stable_def nth_append)

lemma new_obj_type:
  "new_obj ob w = (a, w') \<Longrightarrow> a < length (heap w') \<and> heap w' ! a = ob"
  by (auto simp: new_obj_def)

lemma keeps_pools_store:
  assumes "typed_at w T a"
  shows "keeps_pools w (store T a w)"
proof -
  have h: "heap (store T a w) = heap w"
    by (simp add: store_def)
  then have t: "\<And>U b. typed_at (store T a w) U b = typed_at w U b"
    by (simp add: typed_at_def)
  have "pool_exact w \<Longrightarrow> pool_exact (store T a w)"
    using assms by (auto simp: pool_exact_def t) (auto simp: store_def split: if_splits)
  then show ?thesis
    using h by (auto simp: keeps_pools_def types_stable_def)
qed

lemma keeps_pools_update:
  assumes "a < length (heap w)" "dyn_type ob = dyn_type (heap w ! a)"
  shows "keeps_pools w (w\<lparr>heap := (heap w)[a := ob]\<rparr>)"
  using assms by (intro keeps_pools_heap) (auto simp: types_stable_def nth_list_update)

lemma types_stableD:
  "keeps_pools w w' \<Longrightarrow> a < length (heap w) \<Longrightarrow>
     a < length (heap w') \<and> dyn_type (heap w' ! a) = dyn_type (heap w ! a)"
  by (auto simp: keeps_pools_def types_stable_def)

lemma type_at_typed: "type_at w a = Some T \<Longrightarrow> typed_at w T a"
  by (auto simp: type_at_def typed_at_def deref_def split: if_splits)

lemma keeps_pools_spin:
  "harness_ok H \<Longrightarrow> spin E H ob valueid i e w = Inr (n, w') \<Longrightarrow> keeps_pools w w'"
proof (induction E H ob valueid i e w rule: spin.induct)
  case (1 E H ob valueid i e w)
  show ?case
  proof (cases "i < e")
    case False
    with "1.prems" show ?thesis
      by (simp add: spin.simps keeps_pools_refl)
  next
    case True
    with "1.prems" obtain k w1 w2 where
      s: "between (unsigned_ty E) 0 (int (mcount H) - 1) valueid w = Inr (k, w1)"
         "nat k < mcount H" "(mroulette H ! nat k) ob w1 = Inr w2"
         "spin E H ob valueid (i + 1) e w2 = Inr (n, w')"
      by (subst (asm) (2) spin.simps) (auto split: sum.splits if_splits)
    have "mroulette H ! nat k \<in> set (mroulette H)"
      using s(2) by (simp add: mcount_def)
    then have "keeps_pools w1 w2"
      using "1.prems"(1) s(3) unfolding harness_ok_def by blast
    moreover have "keeps_pools w w1"
      using s(1) by (rule keeps_pools_between)
    moreover have "keeps_pools w2 w'"
      using "1.IH" [OF True s(1) refl s(2) s(3) "1.prems"(1) s(4)] .
    ultimately show ?thesis
      by (blast intro: keeps_pools_trans)
  qed
qed

lemma keeps_pools_roulette:
  assumes "harness_ok H" "roulette E H ob valueid w = Inr (n, w')"
  shows "keeps_pools w w'"
proof (cases "mcount H = 0")
  case True
  with assms show ?thesis
    by (simp add: roulette_def keeps_pools_refl)
next
  case False
  with assms obtain e w1 where
    "between (unsigned_ty E) 0 (int (spinlimit E)) valueid w = Inr (e, w1)"
    "spin E H ob valueid 0 (nat e) w1 = Inr (n, w')"
    by (auto simp: roulette_def split: sum.splits)
  then show ?thesis
    using assms(1) by (blast intro: keeps_pools_trans keeps_pools_between keeps_pools_spin)
qed

lemma keeps_pools_subclass_branch:
  assumes "subclass_branch E H valueid allow w = Inr (b, w1)"
  shows "keeps_pools w w1"
  using assms
  by (auto simp: subclass_branch_def keeps_pools_refl keeps_pools_between split: if_splits sum.splits)

lemma subclass_branch_taken:
  assumes "subclass_branch E (harness E c) valueid allow w = Inr (True, w1)"
    "makenew_class E c valueid allow w = Inr (p, w')"
  shows "\<exists>k w2. between (size_t_ty E) 0 (int (subcount (harness E c)) - 1) valueid w1 = Inr (k, w2)
           \<and> nat k < subcount (harness E c) \<and> (submakers (harness E c) ! nat k) w2 = Inr (p, w')"
  using assms by (auto simp: makenew_class_def split: sum.splits if_splits)

lemma keeps_pools_makenew_class:
  assumes "harness_ok (harness E c)" "makenew_class E c valueid allow w = Inr (p, w')"
  shows "keeps_pools w w'"
proof -
  obtain b w1 where sb: "subclass_branch E (harness E c) valueid allow w = Inr (b, w1)"
    using assms(2) by (auto simp: makenew_class_def split: sum.splits)
  have k1: "keeps_pools w w1"
    using sb by (rule keeps_pools_subclass_branch)
  show ?thesis
  proof (cases b)
    case True
    with sb have "subclass_branch E (harness E c) valueid allow w = Inr (True, w1)"
      by simp
    from subclass_branch_taken [OF this assms(2)] obtain k w2 where
      s: "between (size_t_ty E) 0 (int (subcount (harness E c)) - 1) valueid w1 = Inr (k, w2)"
         "nat k < subcount (harness E c)" "(submakers (harness E c) ! nat k) w2 = Inr (p, w')"
      by blast
    have "submakers (harness E c) ! nat k \<in> set (submakers (harness E c))"
      using s(2) by (simp add: subcount_def)
    then have "keeps_pools w2 w'"
      using assms(1) s(3) unfolding harness_ok_def by blast
    then show ?thesis
      using k1 s(1) by (blast intro: keeps_pools_trans keeps_pools_between)
  next
    case False
    with sb assms(2) obtain ob w2 n w3 where
      s: "ctor (harness E c) w1 = Inr (ob, w2)" "roulette E (harness E c) ob valueid w2 = Inr (n, w3)"
         "w' = store (Class (obj_type (harness E c))) ob w3"
      by (auto simp: makenew_class_def split: sum.splits)
    have c: "keeps_pools w1 w2" "type_at w2 ob = Some (Class (obj_type (harness E c)))"
      using assms(1) s(1) unfolding harness_ok_def by blast+
    have r: "keeps_pools w2 w3"
      using assms(1) s(2) by (rule keeps_pools_roulette)
    have "typed_at w2 (Class (obj_type (harness E c))) ob"
      using c(2) by (rule type_at_typed)
    then have "typed_at w3 (Class (obj_type (harness E c))) ob"
      using r by (auto simp: keeps_pools_def intro: typed_at_stable)
    then have "keeps_pools w3 w'"
      unfolding s(3) by (rule keeps_pools_store)
    then show ?thesis
      using k1 c(1) r by (blast intro: keeps_pools_trans)
  qed
qed

lemma keeps_pools_chars_write:
  assumes "chars_write a i c w = Inr w'"
  shows "keeps_pools w w'"
proof -
  from assms obtain cs where
    "a < length (heap w)" "heap w ! a = Chars cs" "w' = w\<lparr>heap := (heap w)[a := Chars (cs[i := Some c])]\<rparr>"
    by (auto simp: chars_write_def deref_def split: option.splits obj.splits if_splits)
  then show ?thesis
    by (simp add: keeps_pools_update)
qed

lemma keeps_pools_fill_chars:
  "fill_chars E a valueid i sz w = Inr w' \<Longrightarrow> keeps_pools w w'"
proof (induction E a valueid i sz w rule: fill_chars.induct)
  case (1 E a valueid i sz w)
  show ?case
  proof (cases "i < sz")
    case False
    with "1.prems" show ?thesis
      by (simp add: fill_chars.simps keeps_pools_refl)
  next
    case True
    with "1.prems" obtain c w1 w2 where
      s: "between (char_ty E) (numeric_min (char_ty E)) (numeric_max (char_ty E)) valueid w = Inr (c, w1)"
         "chars_write a i c w1 = Inr w2" "fill_chars E a valueid (i + 1) sz w2 = Inr w'"
      by (subst (asm) fill_chars.simps) (auto split: sum.splits)
    have "keeps_pools w2 w'"
      using "1.IH" [OF True s(1) refl s(2) s(3)] .
    then show ?thesis
      using s(1,2) by (blast intro: keeps_pools_trans keeps_pools_between keeps_pools_chars_write)
  qed
qed

lemma keeps_pools_char_ptr_rest:
  assumes "char_ptr_rest E r sz valueid w = Inr (p, w')"
    "r < length (heap w)" "dyn_type (heap w ! r) = Some (Ptr (Arith (char_ty E)))"
  shows "keeps_pools w w'"
proof -
  obtain a w1 where n: "new_obj (Chars (replicate ((sz + 1) mod 2 ^ 64) None)) w = (a, w1)"
    by (cases "new_obj (Chars (replicate ((sz + 1) mod 2 ^ 64) None)) w")
  define w1' where "w1' = w1\<lparr>heap := (heap w1)[r := Pointer (Arith (char_ty E)) (Some a)]\<rparr>"
  from assms(1) n obtain w2 where
    s: "chars_write a sz 0 w1' = Inr w2" "fill_chars E a valueid 0 sz w2 = Inr w'"
    by (auto simp: char_ptr_rest_def w1'_def split: sum.splits)
  have k1: "keeps_pools w w1"
    using n by (rule keeps_pools_new_obj)
  from types_stableD [OF k1 assms(2)] assms(3) have "keeps_pools w1 w1'"
    unfolding w1'_def by (intro keeps_pools_update) simp_all
  then show ?thesis
    using k1 s by (blast intro: keeps_pools_trans keeps_pools_chars_write keeps_pools_fill_chars)
qed

lemma keeps_pools_make:
  assumes "\<forall>c. harness_ok (harness E c)"
  shows "make E T valueid allow w = Inr (p, w') \<Longrightarrow> keeps_pools w w'"
    and "makenew E T valueid allow w = Inr (p, w') \<Longrightarrow> keeps_pools w w'"
  using assms
proof (induction E T valueid allow w and E T valueid allow w arbitrary: p w' and p w'
    rule: make_makenew.induct)
  case (1 E T valueid allow_subclass w)
  then show ?case
    by (simp add: reuse_def)
next
  case (2 E T valueid allow_subclass w)
  from "2.prems"(1) obtain v w1 a w2 where
    s: "between T (numeric_min T) (numeric_max T) valueid w = Inr (v, w1)"
       "new_obj (Num T v) w1 = (a, w2)" "w' = store (Arith T) a w2"
    by (auto split: sum.splits prod.splits)
  have "typed_at w2 (Arith T) a"
    using new_obj_type [OF s(2)] by (simp add: typed_at_def)
  then have "keeps_pools w2 w'"
    unfolding s(3) by (rule keeps_pools_store)
  then show ?case
    using s(1,2) by (blast intro: keeps_pools_trans keeps_pools_between keeps_pools_new_obj)
next
  case (3 E c valueid allow_subclass w)
  then show ?case
    by (auto intro: keeps_pools_makenew_class)
next
  case (4 E valueid allow_subclass w)
  from "4.prems"(1) obtain n w1 a w2 where
    s: "between (int_ty E) 1 4196 valueid w = Inr (n, w1)"
       "new_obj (Chars (replicate (nat n) None)) w1 = (a, w2)" "w' = store Void a w2"
    by (auto split: sum.splits prod.splits if_splits)
  have "typed_at w2 Void a"
    using new_obj_type [OF s(2)] by (simp add: typed_at_def)
  then have "keeps_pools w2 w'"
    unfolding s(3) by (rule keeps_pools_store)
  then show ?case
    using s(1,2) by (blast intro: keeps_pools_trans keeps_pools_between keeps_pools_new_obj)
next
  case (5 E T valueid allow_subclass w)
  show ?case
  proof (cases "T = Arith (char_ty E)")
    case True
    obtain r w0 where n: "new_obj (Pointer T None) w = (r, w0)"
      by (cases "new_obj (Pointer T None) w")
    with "5.prems"(1) True obtain q w1 sz where
      s: "make E (Arith (size_t_ty E)) ((1000000 + valueid) mod 2 ^ 64) False w0 = Inr (q, w1)"
         "char_ptr_rest E r (nat sz) valueid w1 = Inr (p, w')"
      by (auto split: sum.splits)
    have k0: "keeps_pools w w0"
      using n by (rule keeps_pools_new_obj)
    have k1: "keeps_pools w0 w1"
      using "5.IH"(1) [OF True n [symmetric] s(1) "5.prems"(2)] .
    have "r < length (heap w0)" "dyn_type (heap w0 ! r) = Some (Ptr (Arith (char_ty E)))"
      using new_obj_type [OF n] True by simp_all
    with types_stableD [OF k1, of r] have "keeps_pools w1 w'"
      by (intro keeps_pools_char_ptr_rest [OF s(2)]) simp_all
    then show ?thesis
      using k0 k1 by (blast intro: keeps_pools_trans)
  next
    case False
    with "5.prems"(1) obtain q w1 a w2 where
      s: "make E T valueid allow_subclass w = Inr (q, w1)"
         "new_obj (Pointer T q) w1 = (a, w2)" "w' = store (Ptr T) a w2"
      by (auto split: sum.splits prod.splits)
    have k1: "keeps_pools w w1"
      using "5.IH"(2) [OF False s(1) "5.prems"(2)] .
    have "typed_at w2 (Ptr T) a"
      using new_obj_type [OF s(2)] by (simp add: typed_at_def)
    then have "keeps_pools w2 w'"
      unfolding s(3) by (rule keeps_pools_store)
    then show ?thesis
      using k1 s(2) by (blast intro: keeps_pools_trans keeps_pools_new_obj)
  qed
next
  case (6 E valueid allow_subclass w)
  then show ?case
    by (simp add: keeps_pools_refl)
qed

lemma keeps_pools_make_arith:
  assumes "make E (Arith T) valueid allow w = Inr (p, w')"
  shows "keeps_pools w w'"
proof -
  from assms obtain v w1 a w2 where
    s: "between T (numeric_min T) (numeric_max T) valueid w = Inr (v, w1)"
       "new_obj (Num T v) w1 = (a, w2)" "w' = store (Arith T) a w2"
    by (auto simp: reuse_def split: sum.splits prod.splits)
  have "typed_at w2 (Arith T) a"
    using new_obj_type [OF s(2)] by (simp add: typed_at_def)
  then have "keeps_pools w2 w'"
    unfolding s(3) by (rule keeps_pools_store)
  then show ?thesis
    using s(1,2) by (blast intro: keeps_pools_trans keeps_pools_between keeps_pools_new_obj)
qed

lemma reachable_pool_exact:
  assumes "\<forall>c. harness_ok (harness E c)" "reachable E w"
  shows "pool_exact w"
  using assms(2)
proof (induction rule: reachable.induct)
  case (fresh w)
  then show ?case
    by (simp add: pool_exact_def)
next
  case (after_make w T valueid allow_subclass p w')
  then show ?case
    using keeps_pools_make(1) [OF assms(1)] by (auto simp: keeps_pools_def)
next
  case (after_between w T lo hi valueid v w')
  then show ?case
    using keeps_pools_between by (auto simp: keeps_pools_def)
qed

lemma pool_exact_safe:
  assumes "pool_exact w"
  shows "pool_safe sub w"
  unfolding pool_safe_def
proof (intro allI ballI impI)
  fix T a D
  assume "a \<in> set (storage w T)" "type_at w a = Some D"
  with assms have "typed_at w T a" "typed_at w D a"
    by (auto simp: pool_exact_def intro: type_at_typed)
  then have "D = T"
    by (auto simp: typed_at_def)
  then show "\<not> strict_subtype sub D T"
    by (simp add: strict_subtype_def)
qed

text \<open>
  The harness of \<open>std::exception\<close> and the example classes meet what is asked of a
  harness.
\<close>

lemma harness_ok_exception: "harness_ok exception_harness"
  by (auto simp: harness_ok_def exception_harness_def type_at_def deref_def
      intro: keeps_pools_new_obj dest: new_obj_type)

lemma keeps_pools_counter_bump: "counter_bump ob w = Inr w' \<Longrightarrow> keeps_pools w w'"
  by (auto simp: counter_bump_def deref_def intro!: keeps_pools_update
      split: option.splits obj.splits list.splits if_splits)

lemma harness_ok_counter: "harness_ok counter_harness"
  by (auto simp: harness_ok_def counter_harness_def type_at_def deref_def
      intro: keeps_pools_new_obj keeps_pools_counter_bump dest: new_obj_type)

lemma harness_ok_test_env: "\<forall>c. harness_ok (harness test_env c)"
  by (simp add: test_env_def harness_ok_exception harness_ok_counter)

lemma harness_ok_base: "harness_ok base_harness"
  using keeps_pools_make(1) [OF harness_ok_test_env]
  by (auto simp: harness_ok_def base_harness_def type_at_def deref_def
      intro: keeps_pools_new_obj dest: new_obj_type)

lemma harness_ok_sub_env: "\<forall>c. harness_ok (harness sub_env c)"
  using harness_ok_test_env by (simp add: sub_env_def harness_ok_base)

text \<open>
  C3.  When the harnesses keep the pools exact (their constructor returns an object whose
  dynamic type is the class of \<open>obj\<close>), in every state reached from a fresh engine
  by calls of \<open>make\<close> and \<open>between\<close> no pool of a type \<open>T\<close> holds an object whose
  dynamic type is a strict subtype of \<open>T\<close>, whatever the subtype relation is.  And when
  the class overload of \<open>makenew\<close> takes the branch of the subclasses, what it returns
  (pointer and state) is what the chosen function of \<open>submakers\<close> returned: it stores
  nothing.
\<close>

theorem pool_safety:
  assumes "\<forall>c. harness_ok (harness E c)"
  shows "(reachable E w \<longrightarrow> pool_safe sub w) \<and>
         (subclass_branch E (harness E c) valueid allow v = Inr (True, v1) \<and>
          makenew_class E c valueid allow v = Inr (p, v') \<longrightarrow>
            (\<exists>k v2. between (size_t_ty E) 0 (int (subcount (harness E c)) - 1) valueid v1 = Inr (k, v2) \<and>
               nat k < subcount (harness E c) \<and> (submakers (harness E c) ! nat k) v2 = Inr (p, v')))"
  using reachable_pool_exact [OF assms] pool_exact_safe subclass_branch_taken by blast

lemma sub_branch_run:
  "map_sum id fst (subclass_branch sub_env (harness sub_env ''Base'') 9 True (fresh_world replay sub_log)) = Inr True"
  by (simp add: subclass_branch_def subcount_def sub_env_def base_harness_def fresh_world_def sub_log_def
      between_replay_literal in_range_def numeric_min_def numeric_max_def double_ty_def double_one_def
      double_gt_half_def test_env_def)

lemma sub_make_run:
  "map_sum id (\<lambda>r. storage (snd r) (Class ''Base'')) (make sub_env (Class ''Base'') 9 True (fresh_world replay sub_log)) = Inr []"
  by (simp add: reuse_def makenew_class_def subclass_branch_def subcount_def sub_env_def base_harness_def
      fresh_world_def sub_log_def new_obj_def store_def size_t_ty_def sizeof_size_t_def
      roulette_def spin.simps mcount_def counter_harness_def
      between_replay_literal between_replay_literal_last in_range_def numeric_min_def numeric_max_def
      double_ty_def double_one_def double_gt_half_def unsigned_ty_def test_env_def)

text \<open>
  A class \<open>Base\<close> with one subclass, in Replay mode on a log that takes the branch of
  the subclasses: the pool of \<open>Base\<close> stays empty.
\<close>

theorem pool_safety_witness:
  "\<exists>w1 p w'. subclass_branch sub_env (harness sub_env ''Base'') 9 True (fresh_world replay sub_log) = Inr (True, w1) \<and>
     make sub_env (Class ''Base'') 9 True (fresh_world replay sub_log) = Inr (p, w') \<and>
     storage w' (Class ''Base'') = [] \<and>
     pool_safe (\<lambda>D T. True) w' \<and>
     (\<exists>k w2. between (size_t_ty sub_env) 0 (int (subcount (harness sub_env ''Base'')) - 1) 9 w1 = Inr (k, w2) \<and>
        nat k < subcount (harness sub_env ''Base'') \<and>
        (submakers (harness sub_env ''Base'') ! nat k) w2 = Inr (p, w'))"
proof -
  define w0 where "w0 = fresh_world replay sub_log"
  obtain w1 where sb: "subclass_branch sub_env (harness sub_env ''Base'') 9 True w0 = Inr (True, w1)"
    using sub_branch_run unfolding w0_def
    by (cases "subclass_branch sub_env (harness sub_env ''Base'') 9 True (fresh_world replay sub_log)") auto
  obtain p w' where mk: "make sub_env (Class ''Base'') 9 True w0 = Inr (p, w')"
    and st: "storage w' (Class ''Base'') = []"
    using sub_make_run unfolding w0_def
    by (cases "make sub_env (Class ''Base'') 9 True (fresh_world replay sub_log)") auto
  have mn: "makenew_class sub_env ''Base'' 9 True w0 = Inr (p, w')"
    using mk by (simp add: reuse_def)
  have "reachable sub_env w0"
    by (rule reachable.fresh) (simp add: w0_def fresh_world_def)
  then have r: "reachable sub_env w'"
    using mk by (rule reachable.after_make)
  from pool_safety [OF harness_ok_sub_env, of w' "\<lambda>D T. True" "''Base''" 9 True w0 w1 p w'] r sb mn
  have "pool_safe (\<lambda>D T. True) w'"
    and "\<exists>k w2. between (size_t_ty sub_env) 0 (int (subcount (harness sub_env ''Base'')) - 1) 9 w1 = Inr (k, w2) \<and>
        nat k < subcount (harness sub_env ''Base'') \<and>
        (submakers (harness sub_env ''Base'') ! nat k) w2 = Inr (p, w')"
    by blast+
  with sb mk st show ?thesis
    unfolding w0_def by blast
qed

section \<open>Pointers: the depth of a synthesis\<close>

lemma nested_append: "nested h n a \<Longrightarrow> nested (h @ xs) n a"
proof (induction n arbitrary: a)
  case 0
  then show ?case
    by (auto simp: nth_append)
next
  case (Suc n)
  then show ?case
    by (auto simp: nth_append split: obj.splits option.splits)
qed

lemma pointer_to_not_arith: "pointer_to (Suc n) T \<noteq> Arith U"
  by simp

lemma size_pointer_to: "size (pointer_to n T) = n + size T"
  by (induction n) simp_all

lemma pointer_to_inj:
  assumes "pointer_to k T = pointer_to m T"
  shows "k = m"
proof -
  have "size (pointer_to k T) = size (pointer_to m T)"
    using assms by (rule arg_cong)
  then show ?thesis
    by (simp only: size_pointer_to add_right_cancel)
qed

lemma make_pointer_chain:
  assumes "runmode w = generate" "T \<noteq> char_ty E"
  shows "\<exists>a w'. make E (pointer_to n (Arith T)) valueid allow w = Inr (Some a, w') \<and>
           nested (heap w') n a \<and>
           (\<forall>k. 0 < k \<and> k \<le> n \<longrightarrow>
              length (storage w' (pointer_to k (Arith T))) = Suc (length (storage w (pointer_to k (Arith T))))) \<and>
           (\<forall>k. n < k \<longrightarrow> storage w' (pointer_to k (Arith T)) = storage w (pointer_to k (Arith T)))"
proof (induction n)
  case 0
  obtain v w1 where b: "between T (numeric_min T) (numeric_max T) valueid w = Inr (v, w1)"
    using assms(1) by (simp add: between_generate)
  have h: "heap w1 = heap w" "storage w1 = storage w"
    using between_world [OF b] by simp_all
  have "\<And>k. 0 < k \<Longrightarrow> pointer_to k (Arith T) \<noteq> Arith T"
    using pointer_to_inj [of _ "Arith T" 0] by auto
  then show ?case
    using b h by (auto simp: reuse_def new_obj_def store_def)
next
  case (Suc n)
  then obtain b w1 where
    m: "make E (pointer_to n (Arith T)) valueid allow w = Inr (Some b, w1)"
    and nb: "nested (heap w1) n b"
    and st: "\<forall>k. 0 < k \<and> k \<le> n \<longrightarrow>
              length (storage w1 (pointer_to k (Arith T))) = Suc (length (storage w (pointer_to k (Arith T))))"
    and st2: "\<forall>k. n < k \<longrightarrow> storage w1 (pointer_to k (Arith T)) = storage w (pointer_to k (Arith T))"
    by blast
  have nc: "pointer_to n (Arith T) \<noteq> Arith (char_ty E)"
    using assms(2) by (cases n) simp_all
  define a where "a = length (heap w1)"
  define w' where "w' = store (Ptr (pointer_to n (Arith T))) a (w1\<lparr>heap := heap w1 @ [Pointer (pointer_to n (Arith T)) (Some b)]\<rparr>)"
  have mk: "make E (pointer_to (Suc n) (Arith T)) valueid allow w = Inr (Some a, w')"
    using m nc by (simp add: reuse_def new_obj_def a_def w'_def)
  have hp: "heap w' = heap w1 @ [Pointer (pointer_to n (Arith T)) (Some b)]"
    by (simp add: w'_def store_def)
  have "nested (heap w') (Suc n) a"
    using nested_append [OF nb] by (simp add: hp a_def)
  moreover have "\<forall>k. 0 < k \<and> k \<le> Suc n \<longrightarrow>
      length (storage w' (pointer_to k (Arith T))) = Suc (length (storage w (pointer_to k (Arith T))))"
  proof (intro allI impI)
    fix k
    assume k: "0 < k \<and> k \<le> Suc n"
    show "length (storage w' (pointer_to k (Arith T))) = Suc (length (storage w (pointer_to k (Arith T))))"
    proof (cases "k = Suc n")
      case True
      have "storage w1 (pointer_to (Suc n) (Arith T)) = storage w (pointer_to (Suc n) (Arith T))"
        using st2 by blast
      then show ?thesis
        using True by (simp add: w'_def store_def)
    next
      case False
      then have "pointer_to k (Arith T) \<noteq> pointer_to (Suc n) (Arith T)"
        using pointer_to_inj by blast
      then show ?thesis
        using st k False by (simp add: w'_def store_def)
    qed
  qed
  moreover have "\<forall>k. Suc n < k \<longrightarrow> storage w' (pointer_to k (Arith T)) = storage w (pointer_to k (Arith T))"
  proof (intro allI impI)
    fix k
    assume k: "Suc n < k"
    then have "pointer_to k (Arith T) \<noteq> pointer_to (Suc n) (Arith T)"
      using pointer_to_inj by blast
    then show "storage w' (pointer_to k (Arith T)) = storage w (pointer_to k (Arith T))"
      using st2 k by (simp add: w'_def store_def)
  qed
  ultimately show ?case
    using mk by blast
qed

text \<open>
  C4, as amended.  The engine keeps no depth counter.  In Generate mode a request for a
  type with \<open>n\<close> levels of indirection over an arithmetic type other than \<open>char\<close>
  returns, for every \<open>n\<close>: \<open>make\<close> recurses on the pointee, once for each level, and the
  result is a chain of \<open>n\<close> pointers, each stored in the pool of its own type.
\<close>

theorem pointer_depth_not_limited:
  assumes "runmode w = generate" "T \<noteq> char_ty E"
  shows "made_depth (make E (pointer_to n (Arith T)) valueid allow w) n \<and>
         (\<forall>k. 0 < k \<and> k \<le> n \<longrightarrow>
            length (storage (snd (projr (make E (pointer_to n (Arith T)) valueid allow w))) (pointer_to k (Arith T))) =
            Suc (length (storage w (pointer_to k (Arith T)))))"
  using make_pointer_chain [OF assms, of n valueid allow] by (auto simp: made_depth_def)

text \<open>Three levels of indirection over \<open>int\<close>.\<close>

theorem pointer_depth_not_limited_witness:
  "made_depth (make test_env (pointer_to 3 (Arith (int_ty test_env))) 9 False (fresh_world generate [])) 3 \<and>
   length (storage (snd (projr (make test_env (pointer_to 3 (Arith (int_ty test_env))) 9 False
      (fresh_world generate [])))) (pointer_to 2 (Arith (int_ty test_env)))) =
   Suc (length (storage (fresh_world generate []) (pointer_to 2 (Arith (int_ty test_env)))))"
proof -
  have g: "runmode (fresh_world generate []) = generate"
    by (simp add: fresh_world_def)
  have c: "int_ty test_env \<noteq> char_ty test_env"
    by (simp add: int_ty_def char_ty_def)
  have k: "0 < (2::nat) \<and> (2::nat) \<le> 3"
    by simp
  from pointer_depth_not_limited [OF g c, of 3 9 False] k show ?thesis
    by blast
qed

text \<open>
  C4 as stated fails: a request for a type with 21 levels of indirection makes 21 nested
  pointer constructions, and \<open>depthlimit\<close> is 20.
\<close>

theorem pointer_chain_exceeds_depthlimit:
  "made_depth (make test_env (pointer_to 21 (Arith (int_ty test_env))) 9 False (fresh_world generate [])) 21 \<and>
   depthlimit < 21"
proof -
  have g: "runmode (fresh_world generate []) = generate"
    by (simp add: fresh_world_def)
  have c: "int_ty test_env \<noteq> char_ty test_env"
    by (simp add: int_ty_def char_ty_def)
  from make_pointer_chain [OF g c, of 21 9 False] show ?thesis
    by (auto simp: made_depth_def depthlimit_def)
qed

section \<open>Text: char * and std::basic_string\<close>

text \<open>
  A sampled \<open>size_t\<close> is below \<open>2^64\<close>.  The constructor of the harness of
  \<open>std::basic_string\<close>, whenever it returns, leaves the string of the one character 0,
  whatever length and characters were sampled; it meets what is asked of a harness.
\<close>

lemma make_size_t:
  assumes "make E (Arith (size_t_ty E)) valueid allow w = Inr (p, w1)"
  shows "\<exists>v. 0 \<le> v \<and> v < 2 ^ 64 \<and> num_at w1 p = Inr v \<and> p = Some (length (heap w))
           \<and> heap w1 = heap w @ [Num (size_t_ty E) v]"
proof -
  from assms obtain v w0 where
    b: "between (size_t_ty E) (numeric_min (size_t_ty E)) (numeric_max (size_t_ty E)) valueid w = Inr (v, w0)"
    and r: "p = Some (length (heap w0))" "w1 = store (Arith (size_t_ty E)) (length (heap w0)) (w0\<lparr>heap := heap w0 @ [Num (size_t_ty E) v]\<rparr>)"
    by (auto simp: reuse_def new_obj_def split: sum.splits)
  have "0 \<le> v \<and> v < 2 ^ (8 * sizeof (size_t_ty E))"
    using b by (rule between_full_range_unsigned) (simp add: size_t_ty_def)
  then have "0 \<le> v \<and> v < 2 ^ 64"
    by (simp add: size_t_ty_def sizeof_size_t_def)
  moreover have "heap w0 = heap w"
    using between_world [OF b] by simp
  ultimately show ?thesis
    using r by (auto simp: num_at_def deref_def store_def)
qed

lemma size_minus_one_wraps:
  assumes "k < (2::nat) ^ 64"
  shows "(k + 2 ^ 64 - 1) mod 2 ^ 64 = (if k = 0 then 2 ^ 64 - 1 else k - 1)"
proof (cases "k = 0")
  case True
  then show ?thesis by simp
next
  case False
  then have "k + 2 ^ 64 - 1 = (k - 1) + (2::nat) ^ 64"
    by simp
  then have "(k + 2 ^ 64 - 1) mod 2 ^ 64 = (k - 1) mod (2::nat) ^ 64"
    by (simp only: mod_add_self2)
  then show ?thesis
    using False assms by simp
qed

lemma string_fill_from_one:
  assumes "deref w ob = Some (Instance c [ch])"
  shows "string_fill E ob 1 w = Inr w"
  using assms by (subst string_fill.simps) simp

lemma string_fill_result:
  assumes "deref w ob = Some (Instance c s)" "length s < 2 ^ 64" "string_fill E ob 0 w = Inr w3"
  shows "\<exists>x. deref w3 ob = Some (Instance c [x]) \<or> (s = [x] \<and> w3 = w)"
proof (cases "length s = 1")
  case True
  then obtain x where "s = [x]"
    by (cases s) auto
  moreover have "w3 = w"
    using assms(1,3) True by (subst (asm) string_fill.simps) simp
  ultimately show ?thesis
    by blast
next
  case False
  have c: "0 < (length s + 2 ^ 64 - 1) mod 2 ^ 64"
  proof (cases "length s = 0")
    case True
    then show ?thesis by simp
  next
    case nz: False
    with False have "0 < length s - 1"
      by arith
    then show ?thesis
      using nz by (simp only: size_minus_one_wraps [OF assms(2)] if_False)
  qed
  with assms(1,3) obtain ch w1 where
    b: "between (char_ty E) 1 (numeric_max (char_ty E)) 4 w = Inr (ch, w1)"
    and f: "string_fill E ob (0 + 1) (w1\<lparr>heap := (heap w1)[ob := Instance c [ch]]\<rparr>) = Inr w3"
    by (subst (asm) string_fill.simps) (auto split: sum.splits)
  have "ob < length (heap w1)"
    using assms(1) between_world [OF b] by (auto simp: deref_def split: if_splits)
  then have d: "deref (w1\<lparr>heap := (heap w1)[ob := Instance c [ch]]\<rparr>) ob = Some (Instance c [ch])"
    by (simp add: deref_def)
  from string_fill_from_one [OF d, of E] f have "w3 = w1\<lparr>heap := (heap w1)[ob := Instance c [ch]]\<rparr>"
    by simp
  with d show ?thesis
    by blast
qed

lemma string_ctor_result:
  assumes "string_ctor E w = Inr (ob, w')"
  shows "deref w' ob = Some (Instance ''std::basic_string'' [0])"
proof -
  obtain p w1 where m: "make E (Arith (size_t_ty E)) 3 False w = Inr (p, w1)"
    using assms unfolding string_ctor_def
    by (cases "make E (Arith (size_t_ty E)) 3 False w") (auto simp del: make.simps)
  obtain n where n: "num_at w1 p = Inr n"
    using assms unfolding string_ctor_def m by (cases "num_at w1 p") simp_all
  define w2 where "w2 = w1\<lparr>heap := heap w1 @ [Instance ''std::basic_string'' (replicate (nat n) 0)]\<rparr>"
  have c: "(case string_fill E (length (heap w1)) 0 w2 of
              Inl err \<Rightarrow> Inl err
            | Inr w3 \<Rightarrow> (case string_set_back (length (heap w1)) 0 w3 of
                         Inl err \<Rightarrow> Inl err | Inr w4 \<Rightarrow> Inr (length (heap w1), w4))) = Inr (ob, w')"
    using assms unfolding string_ctor_def m
    by (simp add: n new_obj_def w2_def split: if_splits)
  then obtain w3 where f: "string_fill E (length (heap w1)) 0 w2 = Inr w3"
    by (cases "string_fill E (length (heap w1)) 0 w2") simp_all
  from c have b: "string_set_back (length (heap w1)) 0 w3 = Inr w'" and o: "ob = length (heap w1)"
    unfolding f by (cases "string_set_back (length (heap w1)) 0 w3"; simp)+
  from make_size_t [OF m] n have "0 \<le> n \<and> n < 2 ^ 64"
    by auto
  then have l: "length (replicate (nat n) (0::int)) < 2 ^ 64"
    by (simp add: nat_less_iff)
  have d: "deref w2 ob = Some (Instance ''std::basic_string'' (replicate (nat n) 0))"
    by (simp add: w2_def deref_def o)
  from string_fill_result [OF d l f [folded o]] obtain x where
    "deref w3 ob = Some (Instance ''std::basic_string'' [x]) \<or>
     replicate (nat n) 0 = [x] \<and> w3 = w2"
    by blast
  then have "deref w3 ob = Some (Instance ''std::basic_string'' [x])"
    using d by auto
  with b show ?thesis
    unfolding o by (auto simp: string_set_back_def deref_def split: if_splits)
qed

lemma string_ctor_string:
  assumes "string_ctor E w = Inr (ob, w')"
  shows "string_at w' ob = Some [0]"
  using string_ctor_result [OF assms] by (simp add: string_at_def)

lemma keeps_pools_string_fill:
  "string_fill E ob i w = Inr w' \<Longrightarrow> keeps_pools w w'"
proof (induction E ob i w rule: string_fill.induct)
  case (1 E ob i w)
  from "1.prems" obtain c s where d: "deref w ob = Some (Instance c s)"
    by (subst (asm) string_fill.simps) (auto split: option.splits obj.splits)
  show ?case
  proof (cases "i < (length s + 2 ^ 64 - 1) mod 2 ^ 64")
    case False
    with "1.prems" d show ?thesis
      by (subst (asm) string_fill.simps) (simp add: keeps_pools_refl)
  next
    case True
    with "1.prems" d obtain ch w1 where
      b: "between (char_ty E) 1 (numeric_max (char_ty E)) 4 w = Inr (ch, w1)"
      and z: "i = 0"
      and f: "string_fill E ob (i + 1) (w1\<lparr>heap := (heap w1)[ob := Instance c [ch]]\<rparr>) = Inr w'"
      by (subst (asm) string_fill.simps) (auto split: sum.splits if_splits)
    have k1: "keeps_pools w w1"
      using b by (rule keeps_pools_between)
    have "ob < length (heap w1)" "dyn_type (Instance c [ch]) = dyn_type (heap w1 ! ob)"
      using d between_world [OF b] by (auto simp: deref_def split: if_splits)
    then have k2: "keeps_pools w1 (w1\<lparr>heap := (heap w1)[ob := Instance c [ch]]\<rparr>)"
      by (rule keeps_pools_update)
    have "keeps_pools (w1\<lparr>heap := (heap w1)[ob := Instance c [ch]]\<rparr>) w'"
      using "1.IH" [OF d refl True b refl z f] .
    with k1 k2 show ?thesis
      by (blast intro: keeps_pools_trans)
  qed
qed

lemma keeps_pools_string_set_back:
  assumes "string_set_back ob ch w = Inr w'"
  shows "keeps_pools w w'"
proof -
  from assms obtain c s where
    "ob < length (heap w)" "heap w ! ob = Instance c s"
    "w' = w\<lparr>heap := (heap w)[ob := Instance c (butlast s @ [ch])]\<rparr>"
    by (auto simp: string_set_back_def deref_def split: option.splits obj.splits if_splits)
  then show ?thesis
    by (simp add: keeps_pools_update)
qed

lemma harness_ok_string: "harness_ok (string_harness E)"
proof -
  have "keeps_pools w w' \<and> type_at w' ob = Some (Class ''std::basic_string'')"
    if c: "string_ctor E w = Inr (ob, w')" for w ob w'
  proof -
    obtain p w1 where m: "make E (Arith (size_t_ty E)) 3 False w = Inr (p, w1)"
      using c unfolding string_ctor_def
      by (cases "make E (Arith (size_t_ty E)) 3 False w") (auto simp del: make.simps)
    obtain n where n: "num_at w1 p = Inr n"
      using c unfolding string_ctor_def m by (cases "num_at w1 p") simp_all
    obtain a w2 where o: "new_obj (Instance ''std::basic_string'' (replicate (nat n) 0)) w1 = (a, w2)"
      by (cases "new_obj (Instance ''std::basic_string'' (replicate (nat n) 0)) w1")
    from c obtain w3 where f: "string_fill E a 0 w2 = Inr w3" and b: "string_set_back a 0 w3 = Inr w'"
      unfolding string_ctor_def m
      by (auto simp: n o split: if_splits sum.splits)
    have "keeps_pools w w'"
      using m o f b
      by (blast intro: keeps_pools_trans keeps_pools_make_arith keeps_pools_new_obj
          keeps_pools_string_fill keeps_pools_string_set_back)
    moreover have "type_at w' ob = Some (Class ''std::basic_string'')"
      using string_ctor_result [OF c] by (simp add: type_at_def)
    ultimately show ?thesis
      by simp
  qed
  then show ?thesis
    by (simp add: harness_ok_def string_harness_def)
qed

text \<open>
  The \<open>char *\<close> overload, for a length \<open>sz\<close> with \<open>sz + 1 < 2^64\<close>, returns the
  pointer \<open>r\<close> to an array of \<open>sz + 1\<close> characters, all of them written, the last one 0.
\<close>

lemma chars_write_heap:
  assumes "chars_write a i c w = Inr w'"
  shows "\<exists>cs. a < length (heap w) \<and> heap w ! a = Chars cs \<and> i < length cs \<and>
           heap w' = (heap w)[a := Chars (cs[i := Some c])]"
  using assms
  by (auto simp: chars_write_def deref_def split: option.splits obj.splits if_splits)

lemma fill_chars_buffer:
  "fill_chars E a valueid i sz w = Inr w' \<Longrightarrow> a < length (heap w) \<Longrightarrow> heap w ! a = Chars xs \<Longrightarrow>
     \<exists>ys. heap w' ! a = Chars ys \<and> length ys = length xs \<and> length (heap w') = length (heap w) \<and>
       (\<forall>j. j < i \<or> sz \<le> j \<longrightarrow> ys ! j = xs ! j) \<and>
       (\<forall>j. i \<le> j \<and> j < sz \<longrightarrow> ys ! j \<noteq> None) \<and>
       (\<forall>b. b \<noteq> a \<longrightarrow> heap w' ! b = heap w ! b)"
proof (induction E a valueid i sz w arbitrary: xs rule: fill_chars.induct)
  case (1 E a valueid i sz w)
  show ?case
  proof (cases "i < sz")
    case False
    with "1.prems" have "w' = w"
      by (simp add: fill_chars.simps)
    with False "1.prems" show ?thesis
      by auto
  next
    case True
    with "1.prems"(1) obtain c w1 w2 where
      s: "between (char_ty E) (numeric_min (char_ty E)) (numeric_max (char_ty E)) valueid w = Inr (c, w1)"
         "chars_write a i c w1 = Inr w2" "fill_chars E a valueid (i + 1) sz w2 = Inr w'"
      by (subst (asm) fill_chars.simps) (auto split: sum.splits)
    have h1: "heap w1 = heap w"
      using between_world [OF s(1)] by simp
    from chars_write_heap [OF s(2)] "1.prems"(3) h1 have
      i: "i < length xs" and h2: "heap w2 = (heap w)[a := Chars (xs[i := Some c])]"
      by auto
    have a2: "a < length (heap w2)" "heap w2 ! a = Chars (xs[i := Some c])"
      using "1.prems"(2) by (simp_all add: h2)
    from "1.IH" [OF True s(1) refl s(2) s(3) a2] obtain ys where
      ys: "heap w' ! a = Chars ys" "length ys = length (xs[i := Some c])"
        "length (heap w') = length (heap w2)"
        "\<forall>j. j < i + 1 \<or> sz \<le> j \<longrightarrow> ys ! j = xs[i := Some c] ! j"
        "\<forall>j. i + 1 \<le> j \<and> j < sz \<longrightarrow> ys ! j \<noteq> None"
        "\<forall>b. b \<noteq> a \<longrightarrow> heap w' ! b = heap w2 ! b"
      by blast
    have "\<forall>j. j < i \<or> sz \<le> j \<longrightarrow> ys ! j = xs ! j"
      using ys(4) True by (auto simp: nth_list_update)
    moreover have "\<forall>j. i \<le> j \<and> j < sz \<longrightarrow> ys ! j \<noteq> None"
    proof (intro allI impI)
      fix j
      assume j: "i \<le> j \<and> j < sz"
      show "ys ! j \<noteq> None"
      proof (cases "j = i")
        case True
        then have "ys ! j = xs[i := Some c] ! i"
          using ys(4) by simp
        then show ?thesis
          using i by simp
      next
        case False
        then show ?thesis
          using ys(5) j by simp
      qed
    qed
    moreover have "\<forall>b. b \<noteq> a \<longrightarrow> heap w' ! b = heap w ! b"
      using ys(6) by (simp add: h2)
    ultimately show ?thesis
      using ys(1,2,3) by (simp add: h2)
  qed
qed

lemma char_ptr_rest_buffer:
  assumes "char_ptr_rest E r sz valueid w = Inr (p, w')" "r < length (heap w)" "sz + 1 < 2 ^ 64"
  shows "p = Some r \<and> heap w' ! r = Pointer (Arith (char_ty E)) (Some (length (heap w))) \<and>
         (\<exists>ys. heap w' ! length (heap w) = Chars ys \<and> length ys = sz + 1 \<and> ys ! sz = Some 0 \<and>
            None \<notin> set ys)"
proof -
  define a where "a = length (heap w)"
  define w1 where "w1 = w\<lparr>heap := (heap w @ [Chars (replicate (sz + 1) None)])[r := Pointer (Arith (char_ty E)) (Some a)]\<rparr>"
  have m: "(sz + 1) mod 2 ^ 64 = sz + 1"
    using assms(3) by simp
  from assms(1) obtain w2 where
    s: "chars_write a sz 0 w1 = Inr w2" "fill_chars E a valueid 0 sz w2 = Inr w'" and p: "p = Some r"
    unfolding char_ptr_rest_def new_obj_def m
    by (auto simp: a_def w1_def split: sum.splits)
  have ra: "r \<noteq> a"
    using assms(2) by (simp add: a_def)
  have h1: "heap w1 ! a = Chars (replicate (sz + 1) None)" "heap w1 ! r = Pointer (Arith (char_ty E)) (Some a)"
    "a < length (heap w1)"
    using ra assms(2) by (simp_all add: w1_def a_def nth_append)
  define xs :: "int option list" where "xs = (replicate (sz + 1) None)[sz := Some 0]"
  have xs: "length xs = sz + 1" "xs ! sz = Some 0"
    by (simp_all add: xs_def del: replicate_Suc replicate.simps)
  from chars_write_heap [OF s(1)] h1 have
    h2: "heap w2 = (heap w1)[a := Chars xs]"
    unfolding xs_def by auto
  have a2: "a < length (heap w2)" "heap w2 ! a = Chars xs"
    using h1(3) by (simp_all add: h2)
  from fill_chars_buffer [OF s(2) a2] obtain ys where
    ys: "heap w' ! a = Chars ys" "length ys = length xs"
      "\<forall>j. j < 0 \<or> sz \<le> j \<longrightarrow> ys ! j = xs ! j"
      "\<forall>j. 0 \<le> j \<and> j < sz \<longrightarrow> ys ! j \<noteq> None"
      "\<forall>b. b \<noteq> a \<longrightarrow> heap w' ! b = heap w2 ! b"
    by blast
  have z: "ys ! sz = Some 0"
    using ys(3) xs(2) by simp
  have "\<forall>j<length ys. ys ! j \<noteq> None"
  proof (intro allI impI)
    fix j
    assume "j < length ys"
    then have "j < sz \<or> j = sz"
      using ys(2) xs(1) by arith
    then show "ys ! j \<noteq> None"
      using ys(4) z by auto
  qed
  then have "None \<notin> set ys"
    by (auto simp: in_set_conv_nth)
  moreover have "heap w' ! r = Pointer (Arith (char_ty E)) (Some a)"
    using ys(5) ra h1(2) by (simp add: h2)
  ultimately show ?thesis
    using p ys(1,2) xs(1) z by (simp add: a_def)
qed

text \<open>
  C7 fails at the largest length.  In Replay mode on a log whose record holds the length
  \<open>2^64 - 1\<close>, \<open>sz + 1\<close> wraps to 0, the array allocated has no byte, and the write
  of the terminator at index \<open>sz\<close> is outside it.
\<close>

theorem char_ptr_length_overflow:
  "makenew test_env (Ptr (Arith (char_ty test_env))) 9 False (fresh_world replay overflow_log) =
     Inl out_of_bounds"
  by (simp add: reuse_def new_obj_def store_def num_at_def deref_def char_ptr_rest_def chars_write_def
      between_replay_literal_last in_range_def numeric_min_def numeric_max_def
      size_t_ty_def sizeof_size_t_def fresh_world_def overflow_log_def)

text \<open>
  C8 fails.  In Replay mode on a log that holds the length 3 and the characters 65, 66, 67,
  the constructor of the harness of \<open>std::basic_string\<close> samples one character only and
  leaves a string of length 1 that holds the terminator: the two other records are still
  in the input log.
\<close>

theorem string_ctor_one_terminator:
  "made_string (string_ctor test_env (fresh_world replay string_log)) = Some [0] \<and>
   log_left (string_ctor test_env (fresh_world replay string_log)) =
     log_of [char_ty test_env, char_ty test_env] [66, 67] [4, 4]"
  by (simp add: made_string_def log_left_def string_ctor_def string_at_def string_set_back_def
      string_fill.simps reuse_def new_obj_def store_def num_at_def deref_def
      between_replay_literal between_replay_literal_last in_range_def numeric_min_def numeric_max_def
      size_t_ty_def sizeof_size_t_def char_ty_def fresh_world_def string_log_def test_env_def)

section \<open>The claim on globally_visible\<close>

lemma visible_only_if:
  "(globally_visible C \<longrightarrow> has_name C \<and> \<not> restricted C \<and> \<not> is_anonymous_namespace C
      \<and> (\<forall>d\<in>set (enclosing C). \<not> is_anonymous_namespace d))
   \<and> (visible_from C \<longrightarrow> \<not> is_anonymous_namespace C \<and> (\<forall>d\<in>set (enclosing C). \<not> is_anonymous_namespace d))"
  by (induction C) (auto split: if_splits)

text \<open>
  C9.  A declaration that \<open>globally_visible\<close> accepts is a record with a name, is not
  private or protected, and neither it nor any enclosing context is an anonymous namespace.
  In particular a public class nested in a class that is declared in an anonymous namespace
  is not globally visible.
\<close>

theorem globally_visible_only_if:
  "(globally_visible C \<longrightarrow>
      has_name C \<and> \<not> restricted C \<and> (\<forall>d\<in>set (C # enclosing C). \<not> is_anonymous_namespace d)) \<and>
   \<not> globally_visible
       (CXXRecordDecl (Some inner) AS_public (CXXRecordDecl outer acc (NamespaceDecl True parent)))"
  using visible_only_if [of C] by simp

theorem globally_visible_only_if_witness:
  "globally_visible visible_class \<and> has_name visible_class \<and> \<not> restricted visible_class \<and>
   list_all (\<lambda>d. \<not> is_anonymous_namespace d) (visible_class # enclosing visible_class)"
proof -
  have v: "globally_visible visible_class"
    by (simp add: visible_class_def)
  with globally_visible_only_if [of visible_class] show ?thesis
    unfolding list_all_iff by blast
qed

end
